theory Spec2Isabelle
  imports Main
begin

section \<open>Python values used by the bot\<close>

text \<open>
  A Python \<open>str\<close> is the list of its code points, so that \<open>len\<close> and slicing count what
  Python counts. \<open>str\<close> turns an ASCII literal of the source into such a list.
\<close>

type_synonym pystr = "nat list"

definition str :: "string \<Rightarrow> pystr" where
  "str s = map of_char s"

text \<open>
  The values stored in an announcement dictionary: a \<open>str\<close>, or \<open>None\<close> (the panel collector
  stores \<open>"href": None\<close> for an item without a link, and JSON \<open>null\<close> loads as \<open>None\<close>).
  A dictionary keeps its items in insertion order, each key once.
\<close>

datatype pyval = PNone | PStr pystr

type_synonym pydict = "(pystr \<times> pyval) list"

text \<open>
  The exceptions that reach the handler of \<open>main\<close>: the \<open>TypeError\<close> of slicing \<open>None\<close>, the
  \<open>KeyError\<close> of a missing key, and whatever \<open>get_webdriver\<close> raises (with its message).
  On a store that holds JSON of another shape than a list of records: the \<open>TypeError\<close> of
  \<open>len\<close> on a value without length, the \<open>AttributeError\<close> of \<open>.get\<close> on a value that is not
  a \<open>dict\<close>, and the \<open>TypeError\<close> of adding a list to a value that is not one; each carries
  the name of the type of the value.
\<close>

datatype py_error = TypeError | KeyError pystr | WebDriverError pystr
  | TypeError_len pystr | AttributeError_get pystr | TypeError_add pystr

definition dict_get :: "pydict \<Rightarrow> pystr \<Rightarrow> pyval \<Rightarrow> pyval" where
  \<comment> \<open>\<open>d.get(k, default)\<close>; \<open>d.get(k)\<close> is \<open>dict_get d k PNone\<close>\<close>
  "dict_get d k dflt = (case map_of d k of None \<Rightarrow> dflt | Some v \<Rightarrow> v)"

definition truthy :: "pyval \<Rightarrow> bool" where
  \<comment> \<open>\<open>if v:\<close> on \<open>None\<close> or a \<open>str\<close>\<close>
  "truthy v = (case v of PNone \<Rightarrow> False | PStr s \<Rightarrow> s \<noteq> [])"

abbreviation href_of :: "pydict \<Rightarrow> pyval" where
  "href_of ann \<equiv> dict_get ann (str ''href'') PNone"

definition title_slice :: "nat \<Rightarrow> pydict \<Rightarrow> py_error + pystr" where
  \<comment> \<open>\<open>ann.get('title', '')[:n]\<close>, evaluated inside the f-strings that are logged:
      \<open>None\<close> is not subscriptable\<close>
  "title_slice n ann =
     (case dict_get ann (str ''title'') (PStr []) of
        PNone \<Rightarrow> Inl TypeError
      | PStr s \<Rightarrow> Inr (take n s))"

section \<open>find_new_announcements\<close>

text \<open>
  The first loop of \<open>find_new_announcements\<close>: it logs every previous record and adds each
  truthy \<open>href\<close> to the set \<open>previous_hrefs\<close>.
\<close>

fun collect_hrefs :: "pydict list \<Rightarrow> pyval set \<Rightarrow> py_error + pyval set" where
  "collect_hrefs [] previous_hrefs = Inr previous_hrefs"
| "collect_hrefs (ann # rest) previous_hrefs =
     (let href = href_of ann in
      case title_slice 50 ann of
        Inl e \<Rightarrow> Inl e
      | Inr _ \<Rightarrow> collect_hrefs rest (if truthy href then insert href previous_hrefs else previous_hrefs))"

text \<open>The logging loops over \<open>current\<close> (slice 50) and over \<open>new\<close> (slice 60).\<close>

fun log_titles :: "nat \<Rightarrow> pydict list \<Rightarrow> py_error + unit" where
  "log_titles n [] = Inr ()"
| "log_titles n (ann # rest) =
     (case title_slice n ann of Inl e \<Rightarrow> Inl e | Inr _ \<Rightarrow> log_titles n rest)"

definition find_new_announcements :: "pydict list \<Rightarrow> pydict list \<Rightarrow> py_error + pydict list" where
  "find_new_announcements current previous =
     (case collect_hrefs previous {} of
        Inl e \<Rightarrow> Inl e
      | Inr previous_hrefs \<Rightarrow>
          (case log_titles 50 current of
             Inl e \<Rightarrow> Inl e
           | Inr _ \<Rightarrow>
               (let new = [ann \<leftarrow> current. href_of ann \<notin> previous_hrefs] in
                case log_titles 60 new of Inl e \<Rightarrow> Inl e | Inr _ \<Rightarrow> Inr new)))"

text \<open>
  A record is typed as the source annotates it when its title, if it has one, is a \<open>str\<close>.
\<close>

definition str_title :: "pydict \<Rightarrow> bool" where
  "str_title ann = (dict_get ann (str ''title'') (PStr []) \<noteq> PNone)"

definition str_titles :: "pydict list \<Rightarrow> bool" where
  "str_titles anns = list_all str_title anns"

text \<open>The \<open>href\<close> values that the deduplication set holds: the non-empty strings.\<close>

definition seen_hrefs :: "pydict list \<Rightarrow> pyval set" where
  "seen_hrefs previous = set [v \<leftarrow> map (\<lambda>ann. href_of ann) previous. truthy v]"

text \<open>
  The contract in the words of the specification: the records of \<open>current\<close> whose \<open>href\<close>
  is not among the \<open>href\<close> values of \<open>previous\<close>, an absent \<open>href\<close> being no value.
\<close>

definition href_values :: "pydict list \<Rightarrow> pyval set" where
  "href_values previous = set [v \<leftarrow> map (\<lambda>ann. href_of ann) previous. v \<noteq> PNone]"

definition spec_diffNew :: "pydict list \<Rightarrow> pydict list \<Rightarrow> pydict list" where
  "spec_diffNew current previous = [ann \<leftarrow> current. href_of ann \<notin> href_values previous]"


section \<open>The json module: dump and load\<close>

text \<open>
  \<open>save_announcements\<close> calls \<open>json.dump(announcements, f, ensure_ascii=False, indent=2)\<close> and
  \<open>load_saved_announcements\<close> calls \<open>json.load(f)\<close>. Both library functions are modelled on
  the text of the file, character by character.

  The encoder: with \<open>ensure_ascii=False\<close> a string is written between quotes with only the
  backslash, the quote and the control characters below \<open>0x20\<close> escaped (\<open>\b \f \n \r \t\<close>
  by their short forms, the others as \<open>\u00XX\<close> in lower-case hexadecimal); with
  \<open>indent=2\<close> every element of a list and every member of a dictionary starts on a new
  line, indented by two spaces per level, the separators being \<open>,\<close> and \<open>: \<close>; an empty list
  is \<open>[]\<close> and an empty dictionary \<open>{}\<close>.
\<close>

definition hex_digit :: "nat \<Rightarrow> nat" where
  "hex_digit d = (if d < 10 then 48 + d else 87 + d)"

definition escape_char :: "nat \<Rightarrow> pystr" where
  "escape_char c =
     (if c = 92 then [92, 92]
      else if c = 34 then [92, 34]
      else if c = 8 then [92, 98]
      else if c = 12 then [92, 102]
      else if c = 10 then [92, 110]
      else if c = 13 then [92, 114]
      else if c = 9 then [92, 116]
      else if c < 32 then [92, 117, 48, 48, hex_digit (c div 16), hex_digit (c mod 16)]
      else [c])"

definition encode_basestring :: "pystr \<Rightarrow> pystr" where
  "encode_basestring s = [34] @ concat (map escape_char s) @ [34]"

definition newline_indent :: "nat \<Rightarrow> pystr" where
  "newline_indent level = 10 # replicate (2 * level) 32"

fun join :: "pystr \<Rightarrow> pystr list \<Rightarrow> pystr" where
  "join sep [] = []"
| "join sep [x] = x"
| "join sep (x # y # ys) = x @ sep @ join sep (y # ys)"

definition encode_value :: "pyval \<Rightarrow> pystr" where
  "encode_value v = (case v of PNone \<Rightarrow> str ''null'' | PStr s \<Rightarrow> encode_basestring s)"

definition encode_item :: "pystr \<times> pyval \<Rightarrow> pystr" where
  \<comment> \<open>one \<open>"key": value\<close> member, with \<open>key_separator = ': '\<close>\<close>
  "encode_item kv = (case kv of (key, value) \<Rightarrow> encode_basestring key @ str '': '' @ encode_value value)"

definition iterencode_dict :: "nat \<Rightarrow> pydict \<Rightarrow> pystr" where
  "iterencode_dict level dct =
     (if dct = [] then str ''{}''
      else str ''{'' @ newline_indent (level + 1)
           @ join (44 # newline_indent (level + 1)) (map encode_item dct)
           @ newline_indent level @ str ''}'')"

definition iterencode_list :: "nat \<Rightarrow> pydict list \<Rightarrow> pystr" where
  "iterencode_list level lst =
     (if lst = [] then str ''[]''
      else str ''['' @ newline_indent (level + 1)
           @ join (44 # newline_indent (level + 1)) (map (iterencode_dict (level + 1)) lst)
           @ newline_indent level @ str '']'')"

definition json_dumps :: "pydict list \<Rightarrow> pystr" where
  "json_dumps obj = iterencode_list 0 obj"

text \<open>
  The decoder reads any JSON value. A number is kept as its lexeme (also \<open>NaN\<close>, \<open>Infinity\<close>
  and \<open>-Infinity\<close>, which Python accepts): no property here depends on its value. An
  object becomes a dictionary: a repeated key keeps its first position and its last value.
  \<open>None\<close> as a result stands for the exception that \<open>json.load\<close> raises.

  Strings are scanned as the decoder does in strict mode: a control character below
  \<open>0x20\<close> is an error, \<open>\uXXXX\<close> takes four hexadecimal digits, and a high surrogate followed
  by an escaped low surrogate gives one character.
\<close>

datatype json = JNull | JBool bool | JNum pystr | JStr pystr | JArr "json list"
  | JObj "(pystr \<times> json) list"

definition is_ws :: "nat \<Rightarrow> bool" where
  "is_ws c = (c = 32 \<or> c = 9 \<or> c = 10 \<or> c = 13)"

definition skip_ws :: "pystr \<Rightarrow> pystr" where
  "skip_ws s = dropWhile is_ws s"

definition hexval :: "nat \<Rightarrow> nat option" where
  "hexval c =
     (if 48 \<le> c \<and> c \<le> 57 then Some (c - 48)
      else if 97 \<le> c \<and> c \<le> 102 then Some (c - 87)
      else if 65 \<le> c \<and> c \<le> 70 then Some (c - 55)
      else None)"

definition decode_uXXXX :: "pystr \<Rightarrow> nat option" where
  "decode_uXXXX esc =
     (case map hexval esc of
        [Some a, Some b, Some c, Some d] \<Rightarrow> Some (((a * 16 + b) * 16 + c) * 16 + d)
      | _ \<Rightarrow> None)"

definition backslash :: "nat \<Rightarrow> nat option" where
  "backslash esc =
     (if esc = 34 then Some 34
      else if esc = 92 then Some 92
      else if esc = 47 then Some 47
      else if esc = 98 then Some 8
      else if esc = 102 then Some 12
      else if esc = 110 then Some 10
      else if esc = 114 then Some 13
      else if esc = 116 then Some 9
      else None)"

definition cons_chr :: "nat \<Rightarrow> (pystr \<times> pystr) option \<Rightarrow> (pystr \<times> pystr) option" where
  "cons_chr c r = map_option (\<lambda>(s, rest). (c # s, rest)) r"

function scanstring :: "pystr \<Rightarrow> (pystr \<times> pystr) option" where
  "scanstring [] = None"
| "scanstring (c # cs) =
     (if c = 34 then Some ([], cs)
      else if c = 92 then
        (case cs of
           [] \<Rightarrow> None
         | esc # cs' \<Rightarrow>
             if esc = 117 then
               (case decode_uXXXX (take 4 cs') of
                  None \<Rightarrow> None
                | Some uni \<Rightarrow>
                    if 55296 \<le> uni \<and> uni \<le> 56319 \<and> take 2 (drop 4 cs') = [92, 117] then
                      (case decode_uXXXX (take 4 (drop 6 cs')) of
                         None \<Rightarrow> None
                       | Some uni2 \<Rightarrow>
                           if 56320 \<le> uni2 \<and> uni2 \<le> 57343
                           then cons_chr (65536 + ((uni - 55296) * 1024 + (uni2 - 56320)))
                                  (scanstring (drop 10 cs'))
                           else cons_chr uni (scanstring (drop 4 cs')))
                    else cons_chr uni (scanstring (drop 4 cs')))
             else (case backslash esc of
                     None \<Rightarrow> None
                   | Some ch \<Rightarrow> cons_chr ch (scanstring cs')))
      else if c < 32 then None
      else cons_chr c (scanstring cs))"
  by pat_completeness auto
termination
  by (relation "measure length") auto

definition is_digit :: "nat \<Rightarrow> bool" where
  "is_digit c = (48 \<le> c \<and> c \<le> 57)"

definition starts_with :: "pystr \<Rightarrow> pystr \<Rightarrow> bool" where
  "starts_with lit s = (take (length lit) s = lit)"

definition match_digits :: "pystr \<Rightarrow> (pystr \<times> pystr) option" where
  "match_digits s =
     (if takeWhile is_digit s = [] then None
      else Some (takeWhile is_digit s, dropWhile is_digit s))"

definition match_int :: "pystr \<Rightarrow> (pystr \<times> pystr) option" where
  "match_int s =
     (case s of
        [] \<Rightarrow> None
      | d # r \<Rightarrow>
          if d = 48 then Some ([48], r)
          else if 49 \<le> d \<and> d \<le> 57 then Some (d # takeWhile is_digit r, dropWhile is_digit r)
          else None)"

definition match_frac :: "pystr \<Rightarrow> pystr \<times> pystr" where
  "match_frac s =
     (case s of
        [] \<Rightarrow> ([], s)
      | c # r \<Rightarrow>
          if c = 46 then (case match_digits r of None \<Rightarrow> ([], s) | Some (ds, r') \<Rightarrow> (c # ds, r'))
          else ([], s))"

definition match_exp :: "pystr \<Rightarrow> pystr \<times> pystr" where
  "match_exp s =
     (case s of
        [] \<Rightarrow> ([], s)
      | e # r \<Rightarrow>
          if e = 101 \<or> e = 69 then
            (case r of
               [] \<Rightarrow> ([], s)
             | g # r' \<Rightarrow>
                 if g = 45 \<or> g = 43 then
                   (case match_digits r' of None \<Rightarrow> ([], s) | Some (ds, r'') \<Rightarrow> (e # g # ds, r''))
                 else (case match_digits r of None \<Rightarrow> ([], s) | Some (ds, r'') \<Rightarrow> (e # ds, r'')))
          else ([], s))"

definition match_number :: "pystr \<Rightarrow> (pystr \<times> pystr) option" where
  "match_number s =
     (let (sign, s1) = (if starts_with [45] s then ([45], tl s) else ([], s)) in
      case match_int s1 of
        None \<Rightarrow> None
      | Some (integer, s2) \<Rightarrow>
          (let (frac, s3) = match_frac s2; (exp, s4) = match_exp s3
           in Some (sign @ integer @ frac @ exp, s4)))"

fun dict_setitem :: "pystr \<Rightarrow> 'v \<Rightarrow> (pystr \<times> 'v) list \<Rightarrow> (pystr \<times> 'v) list" where
  "dict_setitem k v [] = [(k, v)]"
| "dict_setitem k v ((k', v') # d) =
     (if k' = k then (k, v) # d else (k', v') # dict_setitem k v d)"

definition dict_of_pairs :: "(pystr \<times> 'v) list \<Rightarrow> (pystr \<times> 'v) list" where
  "dict_of_pairs pairs = foldl (\<lambda>d (k, v). dict_setitem k v d) [] pairs"

text \<open>
  \<open>scan_once\<close>, \<open>JSONObject\<close> and \<open>JSONArray\<close> follow the functions of these names in
  \<open>json.scanner\<close> and \<open>json.decoder\<close>. \<open>JSONObject\<close> starts after the opening quote of a key,
  \<open>JSONArray\<close> at the first character of an element. Their first argument bounds the
  nested calls; \<open>json_loads\<close> passes a bound that is never reached (lemma
  \<open>json_loads_fuel\<close>). Python's own limits (the recursion limit, the limit on the digits
  of an integer) are not modelled.
\<close>

fun scan_once :: "nat \<Rightarrow> pystr \<Rightarrow> (json \<times> pystr) option"
  and JSONObject :: "nat \<Rightarrow> pystr \<Rightarrow> ((pystr \<times> json) list \<times> pystr) option"
  and JSONArray :: "nat \<Rightarrow> pystr \<Rightarrow> (json list \<times> pystr) option"
where
  "scan_once 0 s = None"
| "scan_once (Suc n) [] = None"
| "scan_once (Suc n) (nextchar # s) =
     (if nextchar = 34 then map_option (\<lambda>(t, r). (JStr t, r)) (scanstring s)
      else if nextchar = 123 then
        (case skip_ws s of
           [] \<Rightarrow> None
         | c # r \<Rightarrow>
             if c = 125 then Some (JObj [], r)
             else if c = 34 then map_option (\<lambda>(pairs, r'). (JObj (dict_of_pairs pairs), r')) (JSONObject n r)
             else None)
      else if nextchar = 91 then
        (case skip_ws s of
           [] \<Rightarrow> None
         | c # r \<Rightarrow>
             if c = 93 then Some (JArr [], r)
             else map_option (\<lambda>(values, r'). (JArr values, r')) (JSONArray n (c # r)))
      else if starts_with (str ''null'') (nextchar # s) then Some (JNull, drop 3 s)
      else if starts_with (str ''true'') (nextchar # s) then Some (JBool True, drop 3 s)
      else if starts_with (str ''false'') (nextchar # s) then Some (JBool False, drop 4 s)
      else
        (case match_number (nextchar # s) of
           Some (lexeme, r) \<Rightarrow> Some (JNum lexeme, r)
         | None \<Rightarrow>
             if starts_with (str ''NaN'') (nextchar # s) then Some (JNum (str ''NaN''), drop 2 s)
             else if starts_with (str ''Infinity'') (nextchar # s)
               then Some (JNum (str ''Infinity''), drop 7 s)
             else if starts_with (str ''-Infinity'') (nextchar # s)
               then Some (JNum (str ''-Infinity''), drop 8 s)
             else None))"
| "JSONObject 0 s = None"
| "JSONObject (Suc n) s =
     (case scanstring s of
        None \<Rightarrow> None
      | Some (key, r) \<Rightarrow>
          (case skip_ws r of
             [] \<Rightarrow> None
           | c # r1 \<Rightarrow>
               if c \<noteq> 58 then None
               else
                 (case scan_once n (skip_ws r1) of
                    None \<Rightarrow> None
                  | Some (value, r2) \<Rightarrow>
                      (case skip_ws r2 of
                         [] \<Rightarrow> None
                       | c' # r3 \<Rightarrow>
                           if c' = 125 then Some ([(key, value)], r3)
                           else if c' = 44 then
                             (case skip_ws r3 of
                                [] \<Rightarrow> None
                              | q # r4 \<Rightarrow>
                                  if q = 34
                                  then map_option (\<lambda>(pairs, r'). ((key, value) # pairs, r'))
                                         (JSONObject n r4)
                                  else None)
                           else None))))"
| "JSONArray 0 s = None"
| "JSONArray (Suc n) s =
     (case scan_once n s of
        None \<Rightarrow> None
      | Some (value, r) \<Rightarrow>
          (case skip_ws r of
             [] \<Rightarrow> None
           | c # r1 \<Rightarrow>
               if c = 93 then Some ([value], r1)
               else if c = 44 then
                 map_option (\<lambda>(values, r'). (value # values, r')) (JSONArray n (skip_ws r1))
               else None))"

definition json_loads :: "pystr \<Rightarrow> json option" where
  "json_loads s =
     (if starts_with [65279] s then None
      else
        (case scan_once (2 * length s + 2) (skip_ws s) of
           None \<Rightarrow> None
         | Some (obj, rest) \<Rightarrow> if skip_ws rest = [] then Some obj else None))"

text \<open>
  A history, typed as the source annotates it, as a JSON value, and back: \<open>as_history\<close> is
  \<open>None\<close> on JSON that is not a list of dictionaries whose values are strings or \<open>null\<close>.
\<close>

definition value_json :: "pyval \<Rightarrow> json" where
  "value_json v = (case v of PNone \<Rightarrow> JNull | PStr s \<Rightarrow> JStr s)"

definition item_json :: "pystr \<times> pyval \<Rightarrow> pystr \<times> json" where
  "item_json kv = (case kv of (k, v) \<Rightarrow> (k, value_json v))"

definition dict_json :: "pydict \<Rightarrow> json" where
  "dict_json d = JObj (map item_json d)"

definition history_json :: "pydict list \<Rightarrow> json" where
  "history_json h = JArr (map dict_json h)"

definition json_value :: "json \<Rightarrow> pyval option" where
  "json_value j = (case j of JNull \<Rightarrow> Some PNone | JStr s \<Rightarrow> Some (PStr s) | _ \<Rightarrow> None)"

fun those_list :: "'a option list \<Rightarrow> 'a list option" where
  "those_list [] = Some []"
| "those_list (x # xs) =
     (case x of None \<Rightarrow> None
      | Some y \<Rightarrow> (case those_list xs of None \<Rightarrow> None | Some ys \<Rightarrow> Some (y # ys)))"

definition json_dict :: "json \<Rightarrow> pydict option" where
  "json_dict j =
     (case j of
        JObj pairs \<Rightarrow> those_list (map (\<lambda>(k, v). map_option (\<lambda>w. (k, w)) (json_value v)) pairs)
      | _ \<Rightarrow> None)"

definition as_history :: "json \<Rightarrow> pydict list option" where
  "as_history j = (case j of JArr items \<Rightarrow> those_list (map json_dict items) | _ \<Rightarrow> None)"

text \<open>
  A Python dictionary holds each key once. The text of a member after its opening quote,
  and the number of nested calls that parsing a dumped history takes, are used to state
  how \<open>json.load\<close> reads what \<open>json.dump\<close> wrote.
\<close>

definition dict_keys_distinct :: "pydict list \<Rightarrow> bool" where
  "dict_keys_distinct h = list_all (\<lambda>d. distinct (map fst d)) h"

definition item_body :: "pystr \<times> pyval \<Rightarrow> pystr" where
  "item_body kv = tl (encode_item kv)"

definition array_fuel :: "pydict list \<Rightarrow> nat" where
  "array_fuel h = sum_list (map (\<lambda>d. length d + 3) h)"


section \<open>The environment of a run\<close>

text \<open>
  What a run reads from outside the program is a record: the process environment, whether
  the browser starts, what the portal shows, how Telegram answers the k-th \<open>requests.post\<close>
  and how writing a text to the store file ends.

  A panel item is what \<open>fetch_from_notifications\<close> holds for an accepted notification when it
  reaches the escaping step: the extracted title, the assembled message, the link and the
  clock. A page element is what \<open>search_page_announcements\<close> reads from a candidate element:
  its text, the text of its \<open>h1\<close> ... \<open>b\<close> children (\<open>None\<close> where \<open>find_element\<close> raises), its
  first link and the clock.
\<close>

datatype http_result = Status nat | RequestException | OtherException

text \<open>
  Writing the store ends in one of three ways: the text is written to the end; \<open>open\<close>
  raises and the file is left as it was; or the file is opened (and so truncated) and
  the write raises after \<open>n\<close> bytes of the UTF-8 encoding of the text have reached it.
\<close>

datatype write_result = Completes | OpenFails | Breaks nat

datatype link_obs = NoLink | Link pyval

record panel_item =
  actual_title :: pystr
  final_message :: pystr
  item_href :: pyval
  item_now :: pystr

record page_elem =
  elem_text :: pystr
  heading_texts :: "pystr option list"
  elem_link :: link_obs
  elem_now :: pystr

datatype portal_obs = PortalError pystr | Portal "panel_item list" "page_elem list"

record env =
  os_environ :: "pystr \<Rightarrow> pystr option"
  webdriver_error :: "pystr option"
  portal_seen :: portal_obs
  http_post :: "nat \<Rightarrow> http_result"
  file_write :: "pystr \<Rightarrow> write_result"

text \<open>
  The store file \<open>duyurular.json\<close>: absent, present but not readable as text (\<open>open\<close> or
  \<open>read\<close> raises), or holding a text.
\<close>

datatype file_state = Absent | Unreadable | Content pystr

text \<open>
  What a run does to the outside, in order: starting and closing the browser, loading the
  portal, each call of \<open>send_telegram_notification\<close> with its arguments, each
  \<open>requests.post\<close> with the message text, each \<open>time.sleep\<close>.
\<close>

datatype event = StartDriver | OpenPortal | Notify pyval pyval | Post pystr | Sleep | QuitDriver

section \<open>Configuration\<close>

definition py_isspace :: "nat \<Rightarrow> bool" where
  "py_isspace c =
     ((9 \<le> c \<and> c \<le> 13) \<or> (28 \<le> c \<and> c \<le> 32) \<or> c = 133 \<or> c = 160 \<or> c = 5760
      \<or> (8192 \<le> c \<and> c \<le> 8202) \<or> c = 8232 \<or> c = 8233 \<or> c = 8239 \<or> c = 8287 \<or> c = 12288)"

definition py_strip :: "pystr \<Rightarrow> pystr" where
  "py_strip s = rev (dropWhile py_isspace (rev (dropWhile py_isspace s)))"

definition os_getenv :: "env \<Rightarrow> pystr \<Rightarrow> pystr \<Rightarrow> pystr" where
  "os_getenv e name dflt = (case os_environ e name of None \<Rightarrow> dflt | Some v \<Rightarrow> v)"

definition TELEGRAM_TOKEN :: "env \<Rightarrow> pystr" where
  "TELEGRAM_TOKEN e = py_strip (os_getenv e (str ''TELEGRAM_TOKEN'') [])"

definition TELEGRAM_CHAT_ID :: "env \<Rightarrow> pystr" where
  "TELEGRAM_CHAT_ID e = py_strip (os_getenv e (str ''TELEGRAM_CHAT_ID'') [])"

definition SAKAI_USERNAME :: "env \<Rightarrow> pystr" where
  "SAKAI_USERNAME e = py_strip (os_getenv e (str ''SAKAI_USERNAME'') [])"

definition SAKAI_PASSWORD :: "env \<Rightarrow> pystr" where
  "SAKAI_PASSWORD e = py_strip (os_getenv e (str ''SAKAI_PASSWORD'') [])"

definition MAX_ANNOUNCEMENTS :: nat where
  "MAX_ANNOUNCEMENTS = 20"

definition required_vars :: "env \<Rightarrow> (pystr \<times> pystr) list" where
  "required_vars e =
     [(str ''TELEGRAM_TOKEN'', TELEGRAM_TOKEN e),
      (str ''TELEGRAM_CHAT_ID'', TELEGRAM_CHAT_ID e),
      (str ''SAKAI_USERNAME'', SAKAI_USERNAME e),
      (str ''SAKAI_PASSWORD'', SAKAI_PASSWORD e)]"

fun first_missing :: "(pystr \<times> pystr) list \<Rightarrow> bool" where
  \<comment> \<open>the loop of \<open>validate_configuration\<close>: \<open>False\<close> at the first empty value\<close>
  "first_missing [] = True"
| "first_missing ((var_name, var_value) # rest) =
     (if var_value = [] then False else first_missing rest)"

definition validate_configuration :: "env \<Rightarrow> bool" where
  "validate_configuration e = first_missing (required_vars e)"

definition ascii_lower :: "nat \<Rightarrow> nat" where
  "ascii_lower c = (if 65 \<le> c \<and> c \<le> 90 then c + 32 else c)"

definition flag_set :: "pystr \<Rightarrow> bool" where
  \<comment> \<open>\<open>v.lower() in ("1", "true", "yes")\<close>: no character outside ASCII lowers to a
      letter of these words, so lowering the ASCII capitals decides the test\<close>
  "flag_set v = (map ascii_lower v \<in> {str ''1'', str ''true'', str ''yes''})"

section \<open>The collector: building the records\<close>

definition replace_char :: "nat \<Rightarrow> pystr \<Rightarrow> pystr \<Rightarrow> pystr" where
  \<comment> \<open>\<open>s.replace(c, r)\<close> for a one-character \<open>c\<close>\<close>
  "replace_char c r s = concat (map (\<lambda>x. if x = c then r else [x]) s)"

definition html_escape :: "pystr \<Rightarrow> pystr" where
  \<comment> \<open>\<open>&\<close> first, then \<open><\<close> and \<open>>\<close>\<close>
  "html_escape s =
     replace_char 62 (str ''&gt;'') (replace_char 60 (str ''&lt;'') (replace_char 38 (str ''&amp;'') s))"

definition panel_record :: "panel_item \<Rightarrow> pydict" where
  "panel_record it =
     [(str ''title'', PStr (html_escape (take 100 (actual_title it)))),
      (str ''content'', PStr (take 2000 (html_escape (final_message it)))),
      (str ''href'', item_href it),
      (str ''timestamp'', PStr (item_now it))]"

definition fetch_from_notifications :: "panel_item list \<Rightarrow> pydict list" where
  "fetch_from_notifications items = map panel_record items"

fun split_on :: "nat \<Rightarrow> pystr \<Rightarrow> pystr list" where
  \<comment> \<open>\<open>s.split(c)\<close>\<close>
  "split_on c [] = [[]]"
| "split_on c (x # xs) =
     (if x = c then [] # split_on c xs
      else (case split_on c xs of [] \<Rightarrow> [[x]] | l # ls \<Rightarrow> (x # l) # ls))"

fun first_heading :: "pystr option list \<Rightarrow> pystr option" where
  \<comment> \<open>the loop over the heading tags: the first heading whose stripped text is not empty\<close>
  "first_heading [] = None"
| "first_heading (None # rest) = first_heading rest"
| "first_heading (Some t # rest) =
     (if py_strip t \<noteq> [] then Some (py_strip t) else first_heading rest)"

definition page_dict :: "pystr \<Rightarrow> pystr \<Rightarrow> pystr \<Rightarrow> pydict" where
  "page_dict title content now =
     [(str ''title'', PStr (py_strip title)),
      (str ''content'', PStr (py_strip content)),
      (str ''timestamp'', PStr now)]"

definition page_record :: "page_elem \<Rightarrow> pydict option" where
  \<comment> \<open>one pass of the second loop of \<open>search_page_announcements\<close>; \<open>None\<close> when the element
      is skipped. With a link that has an \<open>href\<close>, \<open>content\<close> is the dictionary returned by
      \<open>extract_content_from_link\<close>, \<open>content.strip()\<close> raises and the element is skipped.\<close>
  "page_record el =
     (let text = py_strip (elem_text el) in
      if text = [] \<or> length text < 5 then None
      else
        (let lines = split_on 10 text;
             title = (case first_heading (heading_texts el) of
                        Some t \<Rightarrow> t
                      | None \<Rightarrow> (case lines of [] \<Rightarrow> text | l # _ \<Rightarrow> l))
         in case elem_link el of
              NoLink \<Rightarrow>
                Some (page_dict title (if length lines > 1 then join [10] (tl lines) else [])
                        (elem_now el))
            | Link href \<Rightarrow>
                if truthy href then None else Some (page_dict title [] (elem_now el))))"

definition search_page_announcements :: "page_elem list \<Rightarrow> pydict list" where
  "search_page_announcements elements = List.map_filter page_record (take MAX_ANNOUNCEMENTS elements)"

section \<open>The notifier\<close>

definition telegram_message :: "pystr \<Rightarrow> pystr \<Rightarrow> pystr" where
  \<comment> \<open>the f-string \<open><b>(megaphone) YEN(I) DUYURU</b>\n\n<b>{safe_title}</b>\n\n{safe_content}\<close>\<close>
  "telegram_message safe_title safe_content =
     [60, 98, 62, 128226, 32, 89, 69, 78, 304, 32, 68, 85, 89, 85, 82, 85, 60, 47, 98, 62,
      10, 10, 60, 98, 62] @ safe_title @ [60, 47, 98, 62, 10, 10] @ safe_content"

definition send_telegram_notification ::
  "env \<Rightarrow> nat \<Rightarrow> pyval \<Rightarrow> pyval \<Rightarrow> bool \<times> event list \<times> nat" where
  \<comment> \<open>\<open>k\<close> counts the posts made so far. \<open>None.replace\<close> raises inside the \<open>try\<close>, which
      returns \<open>False\<close> before any post.\<close>
  "send_telegram_notification e k title content =
     (case title of
        PNone \<Rightarrow> (False, [Notify title content], k)
      | PStr t \<Rightarrow>
          (case content of
             PNone \<Rightarrow> (False, [Notify title content], k)
           | PStr c \<Rightarrow>
               (let safe_title = replace_char 62 (str ''&gt;'') (replace_char 60 (str ''&lt;'') t);
                    safe_content = replace_char 62 (str ''&gt;'') (replace_char 60 (str ''&lt;'') c);
                    message = telegram_message safe_title safe_content
                in (http_post e k = Status 200, [Notify title content, Post message], Suc k))))"

section \<open>The store\<close>

definition load_saved_announcements :: "file_state \<Rightarrow> json" where
  "load_saved_announcements st =
     (case st of
        Absent \<Rightarrow> JArr []
      | Unreadable \<Rightarrow> JArr []
      | Content t \<Rightarrow> (case json_loads t of None \<Rightarrow> JArr [] | Some v \<Rightarrow> v))"

text \<open>
  The file is opened with \<open>encoding='utf-8'\<close>: a code point takes one to four bytes. The
  first \<open>n\<close> bytes of the encoding of a text decode to a prefix of the text when they end
  between two characters; when they end inside a character, the file cannot be decoded
  and reading it raises \<open>UnicodeDecodeError\<close>.
\<close>

definition utf8_length :: "nat \<Rightarrow> nat" where
  "utf8_length c = (if c < 128 then 1 else if c < 2048 then 2 else if c < 65536 then 3 else 4)"

fun byte_prefix :: "nat \<Rightarrow> pystr \<Rightarrow> pystr option" where
  "byte_prefix n [] = Some []"
| "byte_prefix n (c # s) =
     (if n = 0 then Some []
      else if n < utf8_length c then None
      else map_option ((#) c) (byte_prefix (n - utf8_length c) s))"

definition save_announcements :: "env \<Rightarrow> file_state \<Rightarrow> pydict list \<Rightarrow> file_state" where
  \<comment> \<open>\<open>open(..., 'w')\<close> truncates the file, \<open>json.dump\<close> writes into it; every exception is
      caught and logged. A write that breaks leaves the bytes that reached the file.\<close>
  "save_announcements e st announcements =
     (case file_write e (json_dumps announcements) of
        Completes \<Rightarrow> Content (json_dumps announcements)
      | OpenFails \<Rightarrow> st
      | Breaks n \<Rightarrow>
          (case byte_prefix n (json_dumps announcements) of
             Some written \<Rightarrow> Content written
           | None \<Rightarrow> Unreadable))"

section \<open>fetch_announcements and main\<close>

definition error_str :: "py_error \<Rightarrow> pystr" where
  \<comment> \<open>\<open>str(e)\<close>\<close>
  "error_str err =
     (case err of
        TypeError \<Rightarrow> [39] @ str ''NoneType'' @ [39] @ str '' object is not subscriptable''
      | KeyError k \<Rightarrow> [39] @ k @ [39]
      | WebDriverError msg \<Rightarrow> msg
      | TypeError_len tp \<Rightarrow> str ''object of type '' @ [39] @ tp @ [39] @ str '' has no len()''
      | AttributeError_get tp \<Rightarrow>
          [39] @ tp @ [39] @ str '' object has no attribute '' @ [39] @ str ''get'' @ [39]
      | TypeError_add tp \<Rightarrow>
          (if tp = str ''str''
           then str ''can only concatenate str (not '' @ [34] @ str ''list'' @ [34] @ str '') to str''
           else str ''unsupported operand type(s) for +: '' @ [39] @ tp @ [39] @ str '' and ''
                  @ [39] @ str ''list'' @ [39]))"

definition fetch_announcements :: "env \<Rightarrow> nat \<Rightarrow> pydict list \<times> event list \<times> nat" where
  "fetch_announcements e k =
     (case portal_seen e of
        PortalError msg \<Rightarrow>
          (case send_telegram_notification e k (PStr (str ''BOT ERROR''))
                  (PStr (str ''Failed to fetch announcements:'' @ [10] @ msg)) of
             (ok, evs, k') \<Rightarrow> ([], OpenPortal # evs, k'))
      | Portal panel page \<Rightarrow>
          (let announcements = fetch_from_notifications panel in
           if announcements \<noteq> [] then (announcements, [OpenPortal], k)
           else if flag_set (os_getenv e (str ''ALLOW_PAGE_SEARCH'') (str ''0''))
             then (search_page_announcements page, [OpenPortal], k)
           else ([], [OpenPortal], k)))"

fun send_all :: "env \<Rightarrow> nat \<Rightarrow> pydict list \<Rightarrow> event list \<times> nat \<times> py_error option" where
  \<comment> \<open>the notification loop of \<open>main\<close>: \<open>announcement["title"]\<close>, \<open>announcement["content"]\<close>,
      the call, the sleep\<close>
  "send_all e k [] = ([], k, None)"
| "send_all e k (announcement # rest) =
     (case map_of announcement (str ''title'') of
        None \<Rightarrow> ([], k, Some (KeyError (str ''title'')))
      | Some title \<Rightarrow>
          (case map_of announcement (str ''content'') of
             None \<Rightarrow> ([], k, Some (KeyError (str ''content'')))
           | Some content \<Rightarrow>
               (case send_telegram_notification e k title content of
                  (ok, evs, k') \<Rightarrow>
                    (case send_all e k' rest of
                       (evs', k'', err) \<Rightarrow> (evs @ [Sleep] @ evs', k'', err)))))"

text \<open>
  The result of \<open>main\<close> is what it returns, with the store and the events of the run.
  \<open>Untyped\<close> stands for a run that is not followed to its end: the store holds a list with
  a dictionary that has a value other than a string or \<open>null\<close>, which the annotation
  \<open>List[Dict[str, str]]\<close> excludes.
\<close>

datatype outcome = Returned bool | Untyped

record run =
  outcome :: outcome
  store :: file_state
  events :: "event list"

definition on_error :: "env \<Rightarrow> nat \<Rightarrow> py_error \<Rightarrow> event list" where
  \<comment> \<open>the handler of \<open>main\<close>: it reports the exception through the notifier\<close>
  "on_error e k err =
     (case send_telegram_notification e k (PStr (str ''BOT ERROR''))
             (PStr (str ''Unexpected error:'' @ [10] @ error_str err)) of
        (ok, evs, k') \<Rightarrow> evs)"

text \<open>
  \<open>json.load\<close> returns whatever well-formed JSON the store holds, and \<open>main\<close> goes on with
  that value. On a value that is not a list of records of strings, the statements of
  \<open>main\<close> and of \<open>find_new_announcements\<close> that touch \<open>previous_announcements\<close> are \<open>len\<close>, the
  loop over the value with \<open>ann.get\<close> and the title slice, and
  \<open>previous_announcements + new_announcements\<close>.
\<close>

definition is_float :: "pystr \<Rightarrow> bool" where
  \<comment> \<open>a number loads as a \<open>float\<close> when its lexeme has a fraction or an exponent, or is \<open>NaN\<close>
      or an infinity, and as an \<open>int\<close> otherwise\<close>
  "is_float lexeme = list_ex (\<lambda>c. \<not> is_digit c \<and> c \<noteq> 45) lexeme"

definition type_name :: "json \<Rightarrow> pystr" where
  \<comment> \<open>\<open>type(v).__name__\<close> of a loaded value\<close>
  "type_name v =
     (case v of
        JNull \<Rightarrow> str ''NoneType''
      | JBool b \<Rightarrow> str ''bool''
      | JNum lexeme \<Rightarrow> if is_float lexeme then str ''float'' else str ''int''
      | JStr s \<Rightarrow> str ''str''
      | JArr items \<Rightarrow> str ''list''
      | JObj pairs \<Rightarrow> str ''dict'')"

definition py_len :: "json \<Rightarrow> py_error + nat" where
  \<comment> \<open>\<open>len(v)\<close>\<close>
  "py_len v =
     (case v of
        JStr s \<Rightarrow> Inr (length s)
      | JArr items \<Rightarrow> Inr (length items)
      | JObj pairs \<Rightarrow> Inr (length pairs)
      | _ \<Rightarrow> Inl (TypeError_len (type_name v)))"

definition py_iter :: "json \<Rightarrow> json list" where
  \<comment> \<open>what \<open>for i, ann in enumerate(v)\<close> goes through, for a value that has a length: the
      elements of a list, the characters of a \<open>str\<close>, the keys of a \<open>dict\<close>\<close>
  "py_iter v =
     (case v of
        JArr items \<Rightarrow> items
      | JStr s \<Rightarrow> map (\<lambda>c. JStr [c]) s
      | JObj pairs \<Rightarrow> map (\<lambda>kv. JStr (fst kv)) pairs
      | _ \<Rightarrow> [])"

text \<open>
  The first loop of \<open>find_new_announcements\<close> on such a value. \<open>ann.get("href")\<close> raises on an
  element that is not a \<open>dict\<close>; on a record of strings the loop does what \<open>collect_hrefs\<close>
  does, and only the title slice can raise. The loop is not followed past a dictionary
  with other values. \<open>Finishes\<close> carries the records that the loop went through.
\<close>

datatype loop_end = Raises py_error | Finishes "pydict list" | Unfollowed

fun loop_previous :: "json list \<Rightarrow> pydict list \<Rightarrow> loop_end" where
  "loop_previous [] records = Finishes records"
| "loop_previous (ann # rest) records =
     (case ann of
        JObj pairs \<Rightarrow>
          (case json_dict ann of
             None \<Rightarrow> Unfollowed
           | Some d \<Rightarrow>
               (case title_slice 50 d of
                  Inl err \<Rightarrow> Raises err
                | Inr _ \<Rightarrow> loop_previous rest (records @ [d])))
      | _ \<Rightarrow> Raises (AttributeError_get (type_name ann)))"

definition py_add_list :: "json \<Rightarrow> py_error option" where
  \<comment> \<open>\<open>v + new_announcements\<close> raises unless \<open>v\<close> is a list\<close>
  "py_add_list v = (case v of JArr items \<Rightarrow> None | _ \<Rightarrow> Some (TypeError_add (type_name v)))"

definition main_untyped :: "env \<Rightarrow> file_state \<Rightarrow> json \<Rightarrow> run" where
  \<comment> \<open>\<open>main\<close> from the line after \<open>load_saved_announcements()\<close>, with the value loaded\<close>
  "main_untyped e st previous_announcements =
     (case py_len previous_announcements of
        Inl err \<Rightarrow>
          \<lparr>outcome = Returned False, store = st,
           events = StartDriver # on_error e 0 err @ [QuitDriver]\<rparr>
      | Inr _ \<Rightarrow>
          (case fetch_announcements e 0 of
             (current_announcements, evs1, k1) \<Rightarrow>
               if current_announcements = [] then
                 \<lparr>outcome = Returned True, store = st,
                  events = StartDriver # evs1 @ [QuitDriver]\<rparr>
               else
                 (case loop_previous (py_iter previous_announcements) [] of
                    Raises err \<Rightarrow>
                      \<lparr>outcome = Returned False, store = st,
                       events = StartDriver # evs1 @ on_error e k1 err @ [QuitDriver]\<rparr>
                  | Unfollowed \<Rightarrow> \<lparr>outcome = Untyped, store = st, events = StartDriver # evs1\<rparr>
                  | Finishes records \<Rightarrow>
                      (case find_new_announcements current_announcements records of
                         Inl err \<Rightarrow>
                           \<lparr>outcome = Returned False, store = st,
                            events = StartDriver # evs1 @ on_error e k1 err @ [QuitDriver]\<rparr>
                       | Inr new_announcements \<Rightarrow>
                           if new_announcements = [] then
                             \<lparr>outcome = Returned True, store = st,
                              events = StartDriver # evs1 @ [QuitDriver]\<rparr>
                           else
                             (case send_all e k1 new_announcements of
                                (evs2, k2, Some err) \<Rightarrow>
                                  \<lparr>outcome = Returned False, store = st,
                                   events = StartDriver # evs1 @ evs2 @ on_error e k2 err
                                              @ [QuitDriver]\<rparr>
                              | (evs2, k2, None) \<Rightarrow>
                                  (case py_add_list previous_announcements of
                                     Some err \<Rightarrow>
                                       \<lparr>outcome = Returned False, store = st,
                                        events = StartDriver # evs1 @ evs2 @ on_error e k2 err
                                                   @ [QuitDriver]\<rparr>
                                   | None \<Rightarrow>
                                       \<lparr>outcome = Returned True,
                                        store = save_announcements e st
                                                  (records @ new_announcements),
                                        events = StartDriver # evs1 @ evs2 @ [QuitDriver]\<rparr>))))))"

definition main :: "env \<Rightarrow> file_state \<Rightarrow> run" where
  "main e st =
     (if \<not> validate_configuration e then \<lparr>outcome = Returned False, store = st, events = []\<rparr>
      else
        (case webdriver_error e of
           Some msg \<Rightarrow>
             \<lparr>outcome = Returned False, store = st,
              events = StartDriver # on_error e 0 (WebDriverError msg)\<rparr>
         | None \<Rightarrow>
             (case as_history (load_saved_announcements st) of
                None \<Rightarrow> main_untyped e st (load_saved_announcements st)
              | Some previous_announcements \<Rightarrow>
                  (case fetch_announcements e 0 of
                     (current_announcements, evs1, k1) \<Rightarrow>
                       if current_announcements = [] then
                         \<lparr>outcome = Returned True, store = st,
                          events = StartDriver # evs1 @ [QuitDriver]\<rparr>
                       else
                         (case find_new_announcements current_announcements previous_announcements of
                            Inl err \<Rightarrow>
                              \<lparr>outcome = Returned False, store = st,
                               events = StartDriver # evs1 @ on_error e k1 err @ [QuitDriver]\<rparr>
                          | Inr new_announcements \<Rightarrow>
                              if new_announcements = [] then
                                \<lparr>outcome = Returned True, store = st,
                                 events = StartDriver # evs1 @ [QuitDriver]\<rparr>
                              else
                                (case send_all e k1 new_announcements of
                                   (evs2, k2, Some err) \<Rightarrow>
                                     \<lparr>outcome = Returned False, store = st,
                                      events = StartDriver # evs1 @ evs2 @ on_error e k2 err
                                                 @ [QuitDriver]\<rparr>
                                 | (evs2, k2, None) \<Rightarrow>
                                     \<lparr>outcome = Returned True,
                                      store = save_announcements e st
                                                (previous_announcements @ new_announcements),
                                      events = StartDriver # evs1 @ evs2 @ [QuitDriver]\<rparr>))))))"

definition exit_status :: "outcome \<Rightarrow> nat option" where
  \<comment> \<open>\<open>sys.exit(0 if success else 1)\<close>\<close>
  "exit_status r = (case r of Returned True \<Rightarrow> Some 0 | Returned False \<Rightarrow> Some 1 | Untyped \<Rightarrow> None)"


section \<open>Notions used to state the properties\<close>

text \<open>
  A record can be sent when it has a \<open>title\<close> and a \<open>content\<close> that are strings, as every
  record of the collector has.
\<close>

definition sendable :: "pydict \<Rightarrow> bool" where
  "sendable ann =
     ((\<exists>t. map_of ann (str ''title'') = Some (PStr t)) \<and> (\<exists>c. map_of ann (str ''content'') = Some (PStr c)))"

text \<open>
  The records that a run finds new: those collected by \<open>fetch_announcements\<close> whose \<open>href\<close>
  is not among the non-empty \<open>href\<close> strings of the loaded history.
\<close>

definition collected :: "env \<Rightarrow> pydict list" where
  "collected e = fst (fetch_announcements e 0)"

definition run_new :: "env \<Rightarrow> pydict list \<Rightarrow> pydict list" where
  "run_new e previous = [ann \<leftarrow> collected e. href_of ann \<notin> seen_hrefs previous]"

text \<open>
  A run is regular when the configuration is complete, the browser starts, and the store
  loads as a history \<open>previous\<close> whose titles are strings.
\<close>

definition regular_run :: "env \<Rightarrow> file_state \<Rightarrow> pydict list \<Rightarrow> bool" where
  "regular_run e st previous =
     (validate_configuration e \<and> webdriver_error e = None
      \<and> as_history (load_saved_announcements st) = Some previous \<and> str_titles previous)"

text \<open>
  Concrete environments for the examples: a complete configuration (every variable set
  to \<open>x\<close>, so the page search stays off), a browser that starts, a notifier that always
  answers 500, a store write that completes, and a panel with the items given.
\<close>

definition ex_item :: "pystr \<Rightarrow> pyval \<Rightarrow> panel_item" where
  "ex_item title href =
     \<lparr>actual_title = title, final_message = str ''m'', item_href = href, item_now = str ''t''\<rparr>"

definition ex_env :: "panel_item list \<Rightarrow> env" where
  "ex_env items =
     \<lparr>os_environ = (\<lambda>name. Some (str ''x'')), webdriver_error = None,
      portal_seen = Portal items [], http_post = (\<lambda>k. Status 500),
      file_write = (\<lambda>t. Completes)\<rparr>"

text \<open>
  The environment of the page search: every variable is \<open>1\<close>, so \<open>ALLOW_PAGE_SEARCH\<close> is on;
  the panel is empty and the page shows one element without a link.
\<close>

definition page_env :: env where
  "page_env =
     \<lparr>os_environ = (\<lambda>name. Some (str ''1'')), webdriver_error = None,
      portal_seen = Portal []
        [\<lparr>elem_text = str ''Duyuru <b> & x'' @ [10] @ str ''body <i>'', heading_texts = [],
          elem_link = NoLink, elem_now = str ''t''\<rparr>],
      http_post = (\<lambda>k. Status 200), file_write = (\<lambda>t. Completes)\<rparr>"

text \<open>
  The environment of a store write that breaks before any character reaches the file,
  and a stored record from an earlier run.
\<close>

definition torn_env :: env where
  "torn_env = (ex_env [ex_item (str ''A'') (PStr (str ''n''))])\<lparr>file_write := (\<lambda>t. Breaks 0)\<rparr>"

definition old_record :: pydict where
  "old_record = [(str ''title'', PStr (str ''O'')), (str ''href'', PStr (str ''o''))]"


section \<open>Properties of find_new_announcements\<close>

lemma title_slice_Inr: "str_title ann \<Longrightarrow> \<exists>s. title_slice n ann = Inr s"
  by (auto simp: str_title_def title_slice_def split: pyval.splits)

lemma collect_hrefs_typed:
  "str_titles previous \<Longrightarrow>
   collect_hrefs previous hs = Inr (hs \<union> seen_hrefs previous)"
proof (induction previous arbitrary: hs)
  case Nil
  then show ?case by (simp add: seen_hrefs_def)
next
  case (Cons ann rest)
  from Cons.prems have t: "str_title ann" and r: "str_titles rest"
    by (simp_all add: str_titles_def)
  from title_slice_Inr [OF t] obtain s where s: "title_slice 50 ann = Inr s" by blast
  show ?case
    using Cons.IH [OF r] s by (auto simp: seen_hrefs_def Let_def)
qed

lemma log_titles_typed: "str_titles anns \<Longrightarrow> log_titles n anns = Inr ()"
proof (induction anns)
  case Nil
  then show ?case by simp
next
  case (Cons ann rest)
  from Cons.prems have t: "str_title ann" and r: "str_titles rest"
    by (simp_all add: str_titles_def)
  from title_slice_Inr [OF t] obtain s where "title_slice n ann = Inr s" by blast
  then show ?case using Cons.IH [OF r] by simp
qed

lemma str_titles_filter: "str_titles anns \<Longrightarrow> str_titles (filter P anns)"
  by (induction anns) (auto simp: str_titles_def)

lemma find_new_announcements_typed:
  assumes "str_titles previous" and "str_titles current"
  shows "find_new_announcements current previous =
           Inr [ann \<leftarrow> current. href_of ann \<notin> seen_hrefs previous]"
  using collect_hrefs_typed [OF assms(1), of "{}"] log_titles_typed [OF assms(2)]
    log_titles_typed [OF str_titles_filter [OF assms(2)]]
  by (simp add: find_new_announcements_def Let_def)

lemma seen_hrefs_iff:
  "v \<in> seen_hrefs previous \<longleftrightarrow>
     (\<exists>s. v = PStr s \<and> s \<noteq> [] \<and> (\<exists>p \<in> set previous. href_of p = PStr s))"
  by (cases v) (force simp: seen_hrefs_def truthy_def)+

lemma href_values_iff:
  "v \<in> href_values previous \<longleftrightarrow>
     (\<exists>s. v = PStr s \<and> (\<exists>p \<in> set previous. href_of p = PStr s))"
  by (cases v) (force simp: href_values_def)+

lemma falsy_not_seen: "\<not> truthy v \<Longrightarrow> v \<notin> seen_hrefs previous"
  by (auto simp: seen_hrefs_def)

text \<open>
  C1 (as stated): \<open>diffNew(current, previous)\<close> is the subsequence of \<open>current\<close> whose
  \<open>href\<close> is not among the \<open>href\<close> values of \<open>previous\<close>. This fails when \<open>previous\<close> holds
  an empty-string \<open>href\<close>: the source adds only truthy values to \<open>previous_hrefs\<close>, so a
  current record with \<open>href = ""\<close> is returned although \<open>""\<close> is an \<open>href\<close> value of
  \<open>previous\<close>.
\<close>

theorem diffNew_href_values_counterexample:
  "find_new_announcements [[(str ''href'', PStr [])]] [[(str ''href'', PStr [])]]
     = Inr [[(str ''href'', PStr [])]]
   \<and> spec_diffNew [[(str ''href'', PStr [])]] [[(str ''href'', PStr [])]] = []"
  by (simp add: find_new_announcements_def spec_diffNew_def href_values_def
      title_slice_def dict_get_def truthy_def str_def)

text \<open>
  C1 (amended): for records typed as annotated, \<open>find_new_announcements current previous\<close>
  returns exactly the subsequence of \<open>current\<close>, in the order of \<open>current\<close>, whose \<open>href\<close> is
  not among the non-empty \<open>href\<close> strings of \<open>previous\<close>; every record of \<open>current\<close> without
  an \<open>href\<close> is in the result, whatever \<open>previous\<close> holds.
\<close>

theorem find_new_announcements_subsequence:
  assumes "str_titles previous" and "str_titles current"
  shows "find_new_announcements current previous =
           Inr [ann \<leftarrow> current. href_of ann \<notin> seen_hrefs previous]
         \<and> seen_hrefs previous =
             {PStr s |s. s \<noteq> [] \<and> (\<exists>p \<in> set previous. href_of p = PStr s)}
         \<and> (\<forall>ann \<in> set current. href_of ann = PNone \<longrightarrow>
               ann \<in> set [ann \<leftarrow> current. href_of ann \<notin> seen_hrefs previous])"
proof (intro conjI)
  show "find_new_announcements current previous =
          Inr [ann \<leftarrow> current. href_of ann \<notin> seen_hrefs previous]"
    by (rule find_new_announcements_typed [OF assms])
  show "seen_hrefs previous =
          {PStr s |s. s \<noteq> [] \<and> (\<exists>p \<in> set previous. href_of p = PStr s)}"
    using seen_hrefs_iff [of _ previous] by blast
  show "\<forall>ann \<in> set current. href_of ann = PNone \<longrightarrow>
          ann \<in> set [ann \<leftarrow> current. href_of ann \<notin> seen_hrefs previous]"
    using falsy_not_seen [of PNone previous] by (simp add: truthy_def)
qed

theorem find_new_announcements_subsequence_witness:
  "find_new_announcements
     [[(str ''href'', PStr (str ''a''))], [(str ''href'', PStr (str ''c''))], [(str ''href'', PNone)]]
     [[(str ''href'', PStr (str ''a''))], [(str ''href'', PStr (str ''b''))]]
   = Inr [[(str ''href'', PStr (str ''c''))], [(str ''href'', PNone)]]"
proof -
  let ?cur = "[[(str ''href'', PStr (str ''a''))], [(str ''href'', PStr (str ''c''))],
               [(str ''href'', PNone)]]"
  let ?prev = "[[(str ''href'', PStr (str ''a''))], [(str ''href'', PStr (str ''b''))]]"
  have p: "str_titles ?prev"
    by (simp add: str_titles_def str_title_def dict_get_def str_def)
  have c: "str_titles ?cur"
    by (simp add: str_titles_def str_title_def dict_get_def str_def)
  have "find_new_announcements ?cur ?prev = Inr [ann \<leftarrow> ?cur. href_of ann \<notin> seen_hrefs ?prev]"
    using find_new_announcements_subsequence [OF p c] by (rule conjunct1)
  also have "[ann \<leftarrow> ?cur. href_of ann \<notin> seen_hrefs ?prev]
               = [[(str ''href'', PStr (str ''c''))], [(str ''href'', PNone)]]"
    by (simp add: seen_hrefs_def dict_get_def truthy_def str_def)
  finally show ?thesis .
qed


section \<open>json.load after json.dump\<close>

lemma hexval_hex_digit: "d < 16 \<Longrightarrow> hexval (hex_digit d) = Some d"
  by (auto simp: hexval_def hex_digit_def)

lemma decode_control: "c < 32 \<Longrightarrow> decode_uXXXX [48, 48, hex_digit (c div 16), hex_digit (c mod 16)] = Some c"
proof -
  assume c: "c < 32"
  then have a: "c div 16 < 16" by simp
  have b: "c mod 16 < 16" by simp
  show ?thesis
    using hexval_hex_digit [OF a] hexval_hex_digit [OF b]
    by (simp add: decode_uXXXX_def hexval_def)
qed

lemma scanstring_escape_char:
  "scanstring (escape_char c @ s) = cons_chr c (scanstring s)"
proof (cases "c < 32")
  case True
  show ?thesis
    using decode_control [OF True] True
    by (simp add: escape_char_def backslash_def)
next
  case False
  then show ?thesis
    by (simp add: escape_char_def backslash_def)
qed

lemma scanstring_escaped:
  "scanstring (concat (map escape_char s) @ 34 # rest) = Some (s, rest)"
proof (induction s)
  case Nil
  show ?case by simp
next
  case (Cons c s)
  have "scanstring (concat (map escape_char (c # s)) @ 34 # rest)
          = scanstring (escape_char c @ (concat (map escape_char s) @ 34 # rest))"
    by simp
  also have "\<dots> = cons_chr c (scanstring (concat (map escape_char s) @ 34 # rest))"
    by (rule scanstring_escape_char)
  also have "\<dots> = Some (c # s, rest)"
    by (simp add: Cons.IH cons_chr_def)
  finally show ?case .
qed


lemma skip_ws_Nil: "skip_ws [] = []"
  by (simp add: skip_ws_def)

lemma skip_ws_nonws: "\<not> is_ws c \<Longrightarrow> skip_ws (c # s) = c # s"
  by (simp add: skip_ws_def)

lemma skip_ws_newline_indent:
  "\<not> is_ws c \<Longrightarrow> skip_ws (newline_indent level @ c # s) = c # s"
proof -
  assume c: "\<not> is_ws c"
  have "dropWhile is_ws (replicate k 32 @ c # s) = c # s" for k
    using c by (induction k) (simp_all add: is_ws_def)
  then show ?thesis by (simp add: skip_ws_def newline_indent_def is_ws_def)
qed

lemma scan_once_basestring:
  "scan_once (Suc n) (encode_basestring s @ rest) = Some (JStr s, rest)"
  by (simp add: encode_basestring_def scanstring_escaped)

lemma scan_once_value:
  "scan_once (Suc n) (encode_value v @ rest) = Some (value_json v, rest)"
proof (cases v)
  case PNone
  then show ?thesis
    by (simp add: encode_value_def value_json_def str_def starts_with_def)
next
  case (PStr s)
  then show ?thesis
    using scan_once_basestring [of n s rest] by (simp add: encode_value_def value_json_def)
qed

lemma encode_value_nonws: "\<exists>c t. encode_value v = c # t \<and> \<not> is_ws c"
  by (cases v) (simp_all add: encode_value_def encode_basestring_def str_def is_ws_def)

lemma encode_item_body: "encode_item kv = 34 # item_body kv"
  by (cases kv) (simp add: encode_item_def item_body_def encode_basestring_def)

lemma JSONObject_items:
  "Suc (length d) < n \<Longrightarrow>
   JSONObject n (item_body kv @ concat (map (\<lambda>x. (44 # newline_indent l1) @ encode_item x) d)
                  @ newline_indent l0 @ 125 # rest)
     = Some (map item_json (kv # d), rest)"
proof (induction d arbitrary: kv n)
  case Nil
  then obtain m where n: "n = Suc (Suc m)" by (cases n; cases "n - 1") auto
  obtain k v where kv: "kv = (k, v)" by (cases kv)
  obtain c t where v: "encode_value v = c # t" "\<not> is_ws c" using encode_value_nonws by blast
  have body: "scanstring (item_body (k, v) @ X) = Some (k, 58 # 32 # encode_value v @ X)" for X
    using scanstring_escaped [of k "58 # 32 # encode_value v @ X"]
    by (simp add: item_body_def encode_item_def encode_basestring_def str_def)
  have "scan_once (Suc m) (skip_ws (32 # encode_value v @ newline_indent l0 @ 125 # rest))
          = Some (value_json v, newline_indent l0 @ 125 # rest)"
    using scan_once_value [of m v "newline_indent l0 @ 125 # rest"] v
    by (simp add: skip_ws_def is_ws_def)
  then show ?case
    by (simp add: n body skip_ws_nonws is_ws_def skip_ws_newline_indent item_json_def kv)
next
  case (Cons x d)
  then obtain m where n: "n = Suc (Suc m)" and m: "Suc (length d) < Suc m"
    by (cases n; cases "n - 1") auto
  obtain k v where kv: "kv = (k, v)" by (cases kv)
  obtain c t where v: "encode_value v = c # t" "\<not> is_ws c" using encode_value_nonws by blast
  have body: "scanstring (item_body (k, v) @ X) = Some (k, 58 # 32 # encode_value v @ X)" for X
    using scanstring_escaped [of k "58 # 32 # encode_value v @ X"]
    by (simp add: item_body_def encode_item_def encode_basestring_def str_def)
  let ?tail = "concat (map (\<lambda>x. (44 # newline_indent l1) @ encode_item x) d)
                 @ newline_indent l0 @ 125 # rest"
  let ?after = "44 # newline_indent l1 @ 34 # item_body x @ ?tail"
  have val: "scan_once (Suc m) (skip_ws (32 # encode_value v @ ?after)) = Some (value_json v, ?after)"
    using scan_once_value [of m v ?after] v
    by (simp add: skip_ws_def is_ws_def)
  have rec: "JSONObject (Suc m) (item_body x @ ?tail) = Some (map item_json (x # d), rest)"
    using Cons.IH [OF m] by simp
  have sk: "skip_ws (newline_indent l1 @ 34 # item_body x @ ?tail) = 34 # item_body x @ ?tail"
    by (rule skip_ws_newline_indent) (simp add: is_ws_def)
  show ?case
    using val rec sk
    by (simp add: n body skip_ws_nonws is_ws_def encode_item_body item_json_def kv)
qed


lemma join_Cons: "join sep (x # xs) = x @ concat (map (\<lambda>y. sep @ y) xs)"
  by (induction xs arbitrary: x) simp_all

lemma dict_setitem_fresh: "k \<notin> fst ` set d \<Longrightarrow> dict_setitem k v d = d @ [(k, v)]"
  by (induction d) auto

lemma foldl_dict_setitem:
  "distinct (map fst (acc @ pairs)) \<Longrightarrow>
   foldl (\<lambda>d (k, v). dict_setitem k v d) acc pairs = acc @ pairs"
proof (induction pairs arbitrary: acc)
  case Nil
  show ?case by simp
next
  case (Cons p pairs)
  obtain k v where p: "p = (k, v)" by (cases p)
  from Cons.prems have fresh: "k \<notin> fst ` set acc" by (auto simp: p)
  from Cons.prems have d: "distinct (map fst ((acc @ [(k, v)]) @ pairs))" by (simp add: p)
  show ?case
    using Cons.IH [OF d] by (simp add: p dict_setitem_fresh [OF fresh])
qed

lemma dict_of_pairs_distinct: "distinct (map fst pairs) \<Longrightarrow> dict_of_pairs pairs = pairs"
  using foldl_dict_setitem [of "[]" pairs] by (simp add: dict_of_pairs_def)

lemma iterencode_dict_items:
  "iterencode_dict level (kv # d) =
     123 # newline_indent (level + 1) @ 34 # item_body kv
       @ concat (map (\<lambda>x. (44 # newline_indent (level + 1)) @ encode_item x) d)
       @ newline_indent level @ [125]"
  by (simp add: iterencode_dict_def join_Cons encode_item_body str_def comp_def)

lemma distinct_item_json: "map fst (map item_json d) = map fst d"
  by (induction d) (auto simp: item_json_def)

lemma scan_once_dict:
  assumes "distinct (map fst d)" and "length d < n"
  shows "scan_once (Suc n) (iterencode_dict level d @ rest) = Some (dict_json d, rest)"
proof (cases d)
  case Nil
  then show ?thesis
    by (simp add: iterencode_dict_def str_def skip_ws_nonws is_ws_def dict_json_def)
next
  case (Cons kv d')
  from assms(2) have f: "Suc (length d') < n" by (simp add: Cons)
  have items: "JSONObject n (item_body kv
                 @ concat (map (\<lambda>x. (44 # newline_indent (level + 1)) @ encode_item x) d')
                 @ newline_indent level @ 125 # rest) = Some (map item_json (kv # d'), rest)"
    by (rule JSONObject_items [OF f])
  have sk: "skip_ws (newline_indent (level + 1) @ 34 # item_body kv
                 @ concat (map (\<lambda>x. (44 # newline_indent (level + 1)) @ encode_item x) d')
                 @ newline_indent level @ 125 # rest)
            = 34 # item_body kv
                 @ concat (map (\<lambda>x. (44 # newline_indent (level + 1)) @ encode_item x) d')
                 @ newline_indent level @ 125 # rest"
    by (rule skip_ws_newline_indent) (simp add: is_ws_def)
  have "distinct (map fst (map item_json d))"
    using assms(1) by (simp only: distinct_item_json)
  then have dd: "dict_of_pairs (map item_json (kv # d')) = map item_json (kv # d')"
    unfolding Cons by (rule dict_of_pairs_distinct)
  show ?thesis
    using items sk dd
    by (simp add: Cons iterencode_dict_items dict_json_def)
qed


lemma iterencode_dict_brace: "\<exists>t. iterencode_dict level d = 123 # t"
  by (simp add: iterencode_dict_def str_def)

lemma JSONArray_dicts:
  "dict_keys_distinct (x # xs) \<Longrightarrow> array_fuel (x # xs) \<le> n \<Longrightarrow>
   JSONArray n (iterencode_dict l1 x
                  @ concat (map (\<lambda>d. (44 # newline_indent l2) @ iterencode_dict l1 d) xs)
                  @ newline_indent l0 @ 93 # rest)
     = Some (map dict_json (x # xs), rest)"
proof (induction xs arbitrary: x n)
  case Nil
  then obtain m where n: "n = Suc (Suc m)" and m: "length x < m"
    by (cases n; cases "n - 1") (auto simp: array_fuel_def)
  from Nil.prems have dx: "distinct (map fst x)" by (simp add: dict_keys_distinct_def)
  show ?case
    using scan_once_dict [OF dx m, of l1 "newline_indent l0 @ 93 # rest"]
    by (simp add: n skip_ws_newline_indent is_ws_def)
next
  case (Cons y ys)
  then obtain m where n: "n = Suc (Suc m)" and m: "length x < m"
      and rest_fuel: "array_fuel (y # ys) \<le> Suc m"
    by (cases n; cases "n - 1") (auto simp: array_fuel_def)
  from Cons.prems have dx: "distinct (map fst x)" and dys: "dict_keys_distinct (y # ys)"
    by (simp_all add: dict_keys_distinct_def)
  let ?tail = "concat (map (\<lambda>d. (44 # newline_indent l2) @ iterencode_dict l1 d) ys)
                 @ newline_indent l0 @ 93 # rest"
  obtain t where t: "iterencode_dict l1 y = 123 # t" using iterencode_dict_brace by blast
  have sk: "skip_ws (newline_indent l2 @ iterencode_dict l1 y @ ?tail) = iterencode_dict l1 y @ ?tail"
    using skip_ws_newline_indent [of 123 l2 "t @ ?tail"] by (simp add: t is_ws_def)
  have rec: "JSONArray (Suc m) (iterencode_dict l1 y @ ?tail) = Some (map dict_json (y # ys), rest)"
    by (rule Cons.IH [OF dys rest_fuel])
  have first: "scan_once (Suc m) (iterencode_dict l1 x @ 44 # newline_indent l2 @ iterencode_dict l1 y @ ?tail)
                 = Some (dict_json x, 44 # newline_indent l2 @ iterencode_dict l1 y @ ?tail)"
    by (rule scan_once_dict [OF dx m])
  show ?case
    using first sk rec by (simp add: n skip_ws_nonws is_ws_def)
qed

lemma join_length: "sum_list (map length xs) \<le> length (join sep xs)"
  by (induction sep xs rule: join.induct) simp_all

lemma length_iterencode_dict: "length d + 2 \<le> length (iterencode_dict level d)"
proof (cases d)
  case Nil
  then show ?thesis by (simp add: iterencode_dict_def str_def)
next
  case (Cons kv d')
  have "length d' \<le> length (concat (map (\<lambda>x. (44 # newline_indent (level + 1)) @ encode_item x) d'))"
    by (induction d') simp_all
  then show ?thesis
    by (simp add: Cons iterencode_dict_items)
qed

lemma iterencode_list_items:
  "iterencode_list level (x # xs) =
     91 # newline_indent (level + 1) @ iterencode_dict (level + 1) x
       @ concat (map (\<lambda>d. (44 # newline_indent (level + 1)) @ iterencode_dict (level + 1) d) xs)
       @ newline_indent level @ [93]"
proof -
  have c: "concat (map (\<lambda>y. sep @ y) (map f xs)) = concat (map (\<lambda>d. sep @ f d) xs)"
    for sep and f :: "pydict \<Rightarrow> pystr"
    by (induction xs) simp_all
  show ?thesis
    by (simp add: iterencode_list_def join_Cons str_def comp_def)
qed

lemma array_fuel_le_length: "array_fuel h \<le> length (iterencode_list level h)"
proof (cases h)
  case Nil
  then show ?thesis by (simp add: array_fuel_def)
next
  case (Cons x xs)
  have tail: "sum_list (map (\<lambda>d. length d + 3) xs)
          \<le> length (concat (map (\<lambda>d. (44 # newline_indent (level + 1)) @ iterencode_dict (level + 1) d) xs))"
  proof (induction xs)
    case Nil
    show ?case by simp
  next
    case (Cons d ds)
    then show ?case
      using length_iterencode_dict [of d "level + 1"] by (simp add: newline_indent_def)
  qed
  show ?thesis
    using tail length_iterencode_dict [of x "level + 1"]
    by (simp add: Cons array_fuel_def iterencode_list_items newline_indent_def)
qed

lemma history_json_map: "history_json h = JArr (map dict_json h)"
  by (simp add: history_json_def)

lemma json_loads_dumps:
  assumes "dict_keys_distinct h"
  shows "json_loads (json_dumps h) = Some (history_json h)"
proof (cases h)
  case Nil
  have "scan_once (2 * length (json_dumps []) + 2) (skip_ws (json_dumps []))
          = scan_once (Suc (Suc 4)) [91, 93]"
    by (simp add: json_dumps_def iterencode_list_def str_def skip_ws_def is_ws_def)
  also have "\<dots> = Some (JArr [], [])"
    by (simp add: skip_ws_def is_ws_def del: Suc_numeral)
  finally have "scan_once (2 * length (json_dumps []) + 2) (skip_ws (json_dumps []))
                  = Some (JArr [], [])" .
  moreover have "\<not> starts_with [65279] (json_dumps [])"
    by (simp add: json_dumps_def iterencode_list_def str_def starts_with_def)
  ultimately show ?thesis
    unfolding Nil json_loads_def by (simp add: history_json_def skip_ws_Nil)
next
  case (Cons x xs)
  let ?items = "iterencode_dict (Suc 0) x
                  @ concat (map (\<lambda>d. (44 # newline_indent (Suc 0)) @ iterencode_dict (Suc 0) d) xs)
                  @ newline_indent 0 @ [93]"
  have dumped: "json_dumps h = 91 # newline_indent (Suc 0) @ ?items"
    by (simp add: json_dumps_def Cons iterencode_list_items)
  obtain t where t: "iterencode_dict (Suc 0) x = 123 # t" using iterencode_dict_brace by blast
  have sk: "skip_ws (newline_indent (Suc 0) @ ?items) = ?items"
    using skip_ws_newline_indent [of 123 "Suc 0"] by (simp add: t is_ws_def)
  let ?n = "2 * length (json_dumps h) + 1"
  have fuel: "array_fuel (x # xs) \<le> ?n"
    using array_fuel_le_length [of h 0] by (simp add: json_dumps_def Cons)
  have arr: "JSONArray ?n ?items = Some (map dict_json (x # xs), [])"
    using JSONArray_dicts [of x xs ?n "Suc 0" "Suc 0" 0 "[]"] assms fuel
    by (simp add: Cons)
  have "scan_once (Suc ?n) (skip_ws (91 # newline_indent (Suc 0) @ ?items))
          = Some (JArr (map dict_json (x # xs)), [])"
    using arr sk by (simp add: skip_ws_nonws is_ws_def t)
  then have "scan_once (Suc ?n) (skip_ws (json_dumps h)) = Some (JArr (map dict_json h), [])"
    unfolding dumped [symmetric] Cons [symmetric] .
  then have parsed: "scan_once (Suc (Suc (2 * length (json_dumps h)))) (skip_ws (json_dumps h))
          = Some (JArr (map dict_json h), [])"
    by simp
  have no_bom: "\<not> starts_with [65279] (json_dumps h)"
    by (simp add: dumped starts_with_def)
  show ?thesis
    by (simp add: json_loads_def history_json_map no_bom parsed skip_ws_Nil)
qed

lemma those_list_all_Some: "(\<And>x. x \<in> set xs \<Longrightarrow> f x = Some (g x)) \<Longrightarrow> those_list (map f xs) = Some (map g xs)"
  by (induction xs) simp_all

lemma json_dict_dict_json: "json_dict (dict_json d) = Some d"
proof -
  have "those_list (map (\<lambda>(k, v). map_option (\<lambda>w. (k, w)) (json_value v)) (map item_json d))
          = Some (map id d)"
    unfolding map_map
    by (rule those_list_all_Some)
      (auto simp: item_json_def json_value_def value_json_def split: pyval.splits)
  then show ?thesis
    by (simp add: json_dict_def dict_json_def)
qed

lemma as_history_history_json: "as_history (history_json h) = Some h"
proof -
  have "those_list (map json_dict (map dict_json h)) = Some (map id h)"
    unfolding map_map
    by (rule those_list_all_Some) (simp add: json_dict_dict_json)
  then show ?thesis
    by (simp add: as_history_def history_json_map)
qed


section \<open>The parser does not run out of fuel\<close>

lemma skip_ws_length: "length (skip_ws s) \<le> length s"
  by (simp add: skip_ws_def length_dropWhile_le)

lemma skip_ws_Cons_length: "skip_ws s = c # r \<Longrightarrow> length r < length s"
  using skip_ws_length [of s] by simp

lemma skip_ws_less: "length u < length (skip_ws s) \<Longrightarrow> length u < length s"
  using skip_ws_length [of s] by simp

lemma cons_chr_Some: "cons_chr c x = Some (t, r) \<Longrightarrow> \<exists>t'. x = Some (t', r)"
  by (cases x) (auto simp: cons_chr_def)

lemma scanstring_shorter: "scanstring s = Some (t, r) \<Longrightarrow> length r < length s"
proof (induction s arbitrary: t r rule: length_induct)
  case (1 s)
  have IH: "length r < length u" if "length u < length s" and "scanstring u = Some (t', r)" for u t'
    using "1.IH" that by blast
  show ?case
  proof (cases s)
    case Nil
    with "1.prems" show ?thesis by simp
  next
    case (Cons c cs)
    have sub: "length r < length u" if "cons_chr x (scanstring u) = Some (t, r)" and "length u \<le> length cs"
      for x u
    proof -
      from cons_chr_Some [OF that(1)] obtain t' where "scanstring u = Some (t', r)" by blast
      moreover from that(2) have "length u < length s" by (simp add: Cons)
      ultimately show ?thesis by (rule IH [rotated])
    qed
    from "1.prems" have "c = 34 \<and> r = cs \<or> (\<exists>x u. cons_chr x (scanstring u) = Some (t, r) \<and> length u \<le> length cs)"
      unfolding Cons scanstring.simps
      apply (auto split: if_splits list.splits option.splits)
            apply (rule exI, rule exI, rule conjI, assumption, simp)+
      done
    then show ?thesis
    proof
      assume "c = 34 \<and> r = cs"
      then show ?thesis by (simp add: Cons)
    next
      assume "\<exists>x u. cons_chr x (scanstring u) = Some (t, r) \<and> length u \<le> length cs"
      then obtain x u where "cons_chr x (scanstring u) = Some (t, r)" and u: "length u \<le> length cs"
        by blast
      from sub [OF this] u show ?thesis by (simp add: Cons)
    qed
  qed
qed


lemma match_digits_length: "match_digits s = Some (ds, r) \<Longrightarrow> length r \<le> length s"
  by (auto simp: match_digits_def length_dropWhile_le split: if_splits)

lemma match_int_shorter: "match_int s = Some (i, r) \<Longrightarrow> length r < length s"
  by (cases s) (auto simp: match_int_def length_dropWhile_le less_Suc_eq_le split: if_splits)

lemma match_frac_length: "length (snd (match_frac s)) \<le> length s"
  by (cases s)
    (auto simp: match_frac_def le_Suc_eq split: option.splits dest!: match_digits_length)

lemma match_exp_length: "length (snd (match_exp s)) \<le> length s"
  by (cases s; cases "tl s")
    (auto simp: match_exp_def le_Suc_eq split: option.splits list.splits if_splits
      dest!: match_digits_length)

lemma match_number_shorter: "match_number s = Some (lexeme, r) \<Longrightarrow> length r < length s"
proof -
  assume m: "match_number s = Some (lexeme, r)"
  define s1 where "s1 = (if starts_with [45] s then tl s else s)"
  have l1: "length s1 \<le> length s" by (simp add: s1_def)
  from m obtain i s2 where i: "match_int s1 = Some (i, s2)"
    and r: "r = snd (match_exp (snd (match_frac s2)))"
    by (auto simp: match_number_def s1_def Let_def split: option.splits prod.splits if_splits)
  from match_int_shorter [OF i] have "length s2 < length s1" .
  moreover have "length r \<le> length s2"
    using match_exp_length [of "snd (match_frac s2)"] match_frac_length [of s2] by (simp add: r)
  ultimately show ?thesis using l1 by simp
qed

lemma parsers_consume:
  "(\<forall>s v r. scan_once n s = Some (v, r) \<longrightarrow> length r < length s)
   \<and> (\<forall>s ps r. JSONObject n s = Some (ps, r) \<longrightarrow> length r < length s)
   \<and> (\<forall>s vs r. JSONArray n s = Some (vs, r) \<longrightarrow> length r < length s)"
proof (induction n)
  case 0
  show ?case by simp
next
  case (Suc n)
  then have so: "\<And>s v r. scan_once n s = Some (v, r) \<Longrightarrow> length r < length s"
    and ob: "\<And>s ps r. JSONObject n s = Some (ps, r) \<Longrightarrow> length r < length s"
    and ar: "\<And>s vs r. JSONArray n s = Some (vs, r) \<Longrightarrow> length r < length s"
    by blast+
  have a: "length r < length s" if "scan_once (Suc n) s = Some (v, r)" for s v r
  proof (cases s)
    case Nil
    with that show ?thesis by simp
  next
    case (Cons c cs)
    from that show ?thesis
      unfolding Cons scan_once.simps
      by (auto split: if_splits list.splits option.splits
          dest!: scanstring_shorter ob ar skip_ws_Cons_length match_number_shorter)
  qed
  have b: "length r < length s" if "JSONObject (Suc n) s = Some (ps, r)" for s ps r
    using that
    by (auto split: if_splits list.splits option.splits
        dest!: scanstring_shorter so ob skip_ws_Cons_length skip_ws_less)
  have c: "length r < length s" if "JSONArray (Suc n) s = Some (vs, r)" for s vs r
    using that
    by (auto split: if_splits list.splits option.splits
        dest!: so ar skip_ws_Cons_length skip_ws_less)
  show ?case using a b c by blast
qed

lemma fuel_step:
  "(\<forall>s. 2 * length s < n \<longrightarrow> scan_once (Suc n) s = scan_once n s)
   \<and> (\<forall>s. 2 * length s + 1 < n \<longrightarrow> JSONObject (Suc n) s = JSONObject n s)
   \<and> (\<forall>s. 2 * length s + 1 < n \<longrightarrow> JSONArray (Suc n) s = JSONArray n s)"
proof (induction n)
  case 0
  show ?case by simp
next
  case (Suc n)
  then have so: "\<And>s. 2 * length s < n \<Longrightarrow> scan_once (Suc n) s = scan_once n s"
    and ob: "\<And>s. 2 * length s + 1 < n \<Longrightarrow> JSONObject (Suc n) s = JSONObject n s"
    and ar: "\<And>s. 2 * length s + 1 < n \<Longrightarrow> JSONArray (Suc n) s = JSONArray n s"
    by blast+
  note shorter = parsers_consume [of n]
  have a: "scan_once (Suc (Suc n)) s = scan_once (Suc n) s" if "2 * length s < Suc n" for s
  proof (cases s)
    case Nil
    show ?thesis by (simp add: Nil)
  next
    case (Cons c cs)
    from that have l: "2 * length cs + 1 < n" by (simp add: Cons)
    have o: "JSONObject (Suc n) r = JSONObject n r" if "skip_ws cs = c' # r" for c' r
      using skip_ws_Cons_length [OF that] l by (intro ob) simp
    have r: "JSONArray (Suc n) (c' # r) = JSONArray n (c' # r)" if "skip_ws cs = c' # r" for c' r
      using skip_ws_length [of cs] l by (intro ar) (simp add: that)
    show ?thesis
      unfolding Cons scan_once.simps
      by (auto simp: o r split: list.splits simp del: JSONObject.simps JSONArray.simps)
  qed
  have b: "JSONObject (Suc (Suc n)) s = JSONObject (Suc n) s" if "2 * length s + 1 < Suc n" for s
  proof (cases "scanstring s")
    case None
    then show ?thesis by simp
  next
    case (Some kr)
    obtain key r0 where kr: "kr = (key, r0)" by (cases kr)
    from scanstring_shorter [of s key r0] Some have l0: "length r0 < length s" by (simp add: kr)
    show ?thesis
    proof (cases "skip_ws r0")
      case Nil
      then show ?thesis by (simp add: Some kr)
    next
      case (Cons c r1)
      from skip_ws_Cons_length [OF Cons] have l1: "length r1 < length r0" .
      have "2 * length (skip_ws r1) < n"
        using skip_ws_length [of r1] l0 l1 that by simp
      then have v: "scan_once (Suc n) (skip_ws r1) = scan_once n (skip_ws r1)" by (rule so)
      have m: "JSONObject (Suc n) r4 = JSONObject n r4"
        if "scan_once n (skip_ws r1) = Some (w, r2)" and "skip_ws r2 = c' # r3"
          and "skip_ws r3 = q # r4" for w r2 c' r3 q r4
      proof -
        from shorter that(1) have "length r2 < length (skip_ws r1)" by blast
        with skip_ws_length [of r1] skip_ws_Cons_length [OF that(2)] skip_ws_Cons_length [OF that(3)]
          l0 l1 \<open>2 * length s + 1 < Suc n\<close>
        show ?thesis by (intro ob) simp
      qed
      show ?thesis
        unfolding JSONObject.simps(2) [of "Suc n" s] JSONObject.simps(2) [of n s]
        by (auto simp: Some kr Cons v m split: option.splits list.splits
            simp del: scan_once.simps JSONObject.simps JSONArray.simps)
    qed
  qed
  have c: "JSONArray (Suc (Suc n)) s = JSONArray (Suc n) s" if "2 * length s + 1 < Suc n" for s
  proof -
    from that have "2 * length s < n" by simp
    then have v: "scan_once (Suc n) s = scan_once n s" by (rule so)
    have m: "JSONArray (Suc n) (skip_ws r1) = JSONArray n (skip_ws r1)"
      if "scan_once n s = Some (w, r)" and "skip_ws r = c' # r1" for w r c' r1
    proof -
      from shorter that(1) have "length r < length s" by blast
      with skip_ws_length [of r1] skip_ws_Cons_length [OF that(2)] \<open>2 * length s + 1 < Suc n\<close>
      show ?thesis by (intro ar) simp
    qed
    show ?thesis
      unfolding JSONArray.simps(2) [of "Suc n" s] JSONArray.simps(2) [of n s]
      by (auto simp: v m split: option.splits list.splits
          simp del: scan_once.simps JSONObject.simps JSONArray.simps)
  qed
  show ?case using a b c by blast
qed

lemma fuel_enough:
  "2 * length s < n \<Longrightarrow> scan_once (n + k) s = scan_once n s"
proof (induction k)
  case 0
  show ?case by simp
next
  case (Suc k)
  have "2 * length s < n + k" using Suc.prems by simp
  with fuel_step [of "n + k"] have "scan_once (Suc (n + k)) s = scan_once (n + k) s" by blast
  with Suc show ?case by simp
qed

text \<open>
  The fuel of \<open>json_loads\<close> is never used up: any larger amount gives the same result, so
  \<open>None\<close> stands for a text that \<open>json.load\<close> rejects.
\<close>

lemma json_loads_fuel:
  "json_loads s =
     (if starts_with [65279] s then None
      else
        (case scan_once (2 * length s + 2 + k) (skip_ws s) of
           None \<Rightarrow> None
         | Some (obj, rest) \<Rightarrow> if skip_ws rest = [] then Some obj else None))"
proof -
  have "2 * length (skip_ws s) < 2 * length s + 2"
    using skip_ws_length [of s] by simp
  from fuel_enough [OF this, of k] show ?thesis
    by (simp add: json_loads_def)
qed


section \<open>A loaded history holds each key once\<close>

lemma dict_setitem_keys: "fst ` set (dict_setitem k v d) = insert k (fst ` set d)"
proof (induction d)
  case Nil
  show ?case by simp
next
  case (Cons p d)
  obtain a b where p: "p = (a, b)" by (cases p)
  from Cons show ?case by (cases "a = k") (auto simp: p)
qed

lemma dict_setitem_distinct: "distinct (map fst d) \<Longrightarrow> distinct (map fst (dict_setitem k v d))"
proof (induction d)
  case Nil
  show ?case by simp
next
  case (Cons p d)
  obtain k' v' where p: "p = (k', v')" by (cases p)
  from Cons show ?case
    using dict_setitem_keys [of k v d] by (auto simp: p simp flip: set_map)
qed

lemma foldl_dict_setitem_distinct:
  "distinct (map fst acc) \<Longrightarrow> distinct (map fst (foldl (\<lambda>d (k, v). dict_setitem k v d) acc pairs))"
proof (induction pairs arbitrary: acc)
  case Nil
  then show ?case by simp
next
  case (Cons p pairs)
  obtain k v where p: "p = (k, v)" by (cases p)
  from Cons.prems have "distinct (map fst (dict_setitem k v acc))" by (rule dict_setitem_distinct)
  from Cons.IH [OF this] show ?case by (simp add: p)
qed

lemma dict_of_pairs_keys_distinct: "distinct (map fst (dict_of_pairs pairs))"
  unfolding dict_of_pairs_def by (rule foldl_dict_setitem_distinct) simp

lemma scan_once_object_distinct:
  "scan_once n s = Some (JObj ps, r) \<Longrightarrow> distinct (map fst ps)"
proof (cases n)
  case 0
  assume "scan_once n s = Some (JObj ps, r)"
  with 0 show ?thesis by simp
next
  case (Suc m)
  assume a: "scan_once n s = Some (JObj ps, r)"
  show ?thesis
  proof (cases s)
    case Nil
    with a Suc show ?thesis by simp
  next
    case (Cons c cs)
    from a show ?thesis
      unfolding Suc Cons scan_once.simps
      by (auto simp: dict_of_pairs_keys_distinct split: if_splits list.splits option.splits
          simp del: JSONObject.simps JSONArray.simps)
  qed
qed

lemma JSONArray_objects_distinct:
  "JSONArray n s = Some (vs, r) \<Longrightarrow> JObj ps \<in> set vs \<Longrightarrow> distinct (map fst ps)"
proof (induction n arbitrary: s vs r)
  case 0
  then show ?case by simp
next
  case (Suc n)
  from Suc.prems(1) obtain v r0 where v: "scan_once n s = Some (v, r0)"
    by (auto split: option.splits)
  from Suc.prems(1) v have "vs = [v] \<or> (\<exists>r1 vs'. JSONArray n r1 = Some (vs', r) \<and> vs = v # vs')"
    by (auto split: list.splits if_splits)
  then show ?case
  proof
    assume "vs = [v]"
    with Suc.prems(2) v show ?thesis
      using scan_once_object_distinct [of n s ps r0] by simp
  next
    assume "\<exists>r1 vs'. JSONArray n r1 = Some (vs', r) \<and> vs = v # vs'"
    then obtain r1 vs' where t: "JSONArray n r1 = Some (vs', r)" and c: "vs = v # vs'" by blast
    from Suc.prems(2) have "v = JObj ps \<or> JObj ps \<in> set vs'" by (auto simp: c)
    then show ?thesis
      using scan_once_object_distinct [of n s ps r0] v Suc.IH [OF t] by auto
  qed
qed

lemma scan_once_array_distinct:
  assumes "scan_once n s = Some (JArr vs, r)" and "JObj ps \<in> set vs"
  shows "distinct (map fst ps)"
proof (cases n)
  case 0
  with assms(1) show ?thesis by simp
next
  case (Suc m)
  show ?thesis
  proof (cases s)
    case Nil
    with assms(1) Suc show ?thesis by simp
  next
    case (Cons c cs)
    from assms(1) have "vs = [] \<or> (\<exists>u. JSONArray m u = Some (vs, r))"
      unfolding Suc Cons scan_once.simps
      by (auto split: if_splits list.splits option.splits
          simp del: JSONObject.simps JSONArray.simps)
    with assms(2) show ?thesis
      using JSONArray_objects_distinct by auto
  qed
qed

lemma those_list_length:
  "those_list xs = Some ys \<Longrightarrow> length ys = length xs \<and> (\<forall>i < length xs. xs ! i = Some (ys ! i))"
proof (induction xs arbitrary: ys)
  case Nil
  then show ?case by simp
next
  case (Cons x xs)
  then show ?case
    by (auto split: option.splits simp: nth_Cons split: nat.splits)
qed

lemma json_dict_keys: "json_dict (JObj ps) = Some d \<Longrightarrow> map fst d = map fst ps"
proof -
  assume "json_dict (JObj ps) = Some d"
  then have t: "those_list (map (\<lambda>(k, v). map_option (\<lambda>w. (k, w)) (json_value v)) ps) = Some d"
    by (simp add: json_dict_def)
  from those_list_length [OF t] have l: "length d = length ps"
    and n: "\<forall>i < length ps. (case ps ! i of (k, v) \<Rightarrow> map_option (\<lambda>w. (k, w)) (json_value v)) = Some (d ! i)"
    by simp_all
  have "fst (d ! i) = fst (ps ! i)" if "i < length ps" for i
  proof -
    from n that
    have "(case ps ! i of (k, v) \<Rightarrow> map_option (\<lambda>w. (k, w)) (json_value v)) = Some (d ! i)"
      by simp
    then show ?thesis by (cases "ps ! i") (auto simp: fst_def split: prod.splits)
  qed
  with l show ?thesis
    by (simp add: list_eq_iff_nth_eq)
qed

lemma as_history_distinct:
  assumes "as_history (JArr vs) = Some h" and "\<And>ps. JObj ps \<in> set vs \<Longrightarrow> distinct (map fst ps)"
  shows "dict_keys_distinct h"
proof -
  from assms(1) have t: "those_list (map json_dict vs) = Some h"
    by (simp add: as_history_def)
  from those_list_length [OF t] have l: "length h = length vs"
    and n: "\<forall>i < length vs. json_dict (vs ! i) = Some (h ! i)"
    by simp_all
  have "distinct (map fst (h ! i))" if "i < length vs" for i
  proof -
    from n that have j: "json_dict (vs ! i) = Some (h ! i)" by simp
    then obtain ps where ps: "vs ! i = JObj ps"
      by (cases "vs ! i") (simp_all add: json_dict_def)
    with that have "JObj ps \<in> set vs" by (metis nth_mem)
    from assms(2) [OF this] json_dict_keys [of ps "h ! i"] j ps show ?thesis by simp
  qed
  with l show ?thesis
    by (simp add: dict_keys_distinct_def list_all_length)
qed

lemma loaded_keys_distinct:
  assumes "as_history (load_saved_announcements st) = Some h"
  shows "dict_keys_distinct h"
proof -
  have e: "dict_keys_distinct h" if "as_history (JArr []) = Some h"
    using that by (simp add: as_history_def dict_keys_distinct_def)
  show ?thesis
  proof (cases st)
    case Absent
    with assms e show ?thesis by (simp add: load_saved_announcements_def)
  next
    case Unreadable
    with assms e show ?thesis by (simp add: load_saved_announcements_def)
  next
    case (Content t)
    show ?thesis
    proof (cases "json_loads t")
      case None
      with assms e Content show ?thesis by (simp add: load_saved_announcements_def)
    next
      case (Some j)
      with assms Content have h: "as_history j = Some h" by (simp add: load_saved_announcements_def)
      then obtain vs where j: "j = JArr vs" by (cases j) (simp_all add: as_history_def)
      from Some obtain n r where "scan_once n (skip_ws t) = Some (JArr vs, r)"
        by (auto simp: json_loads_def j split: if_splits option.splits)
      from scan_once_array_distinct [OF this] as_history_distinct [of vs h] h
      show ?thesis by (simp add: j)
    qed
  qed
qed

lemma regular_run_keys_distinct: "regular_run e st previous \<Longrightarrow> dict_keys_distinct previous"
  by (rule loaded_keys_distinct [of st]) (simp add: regular_run_def)


section \<open>The records of the collector\<close>

lemma panel_record_keys:
  "map_of (panel_record it) (str ''title'') = Some (PStr (html_escape (take 100 (actual_title it))))"
  "map_of (panel_record it) (str ''content'') = Some (PStr (take 2000 (html_escape (final_message it))))"
  "map_of (panel_record it) (str ''href'') = Some (item_href it)"
  by (simp_all add: panel_record_def str_def)

lemma page_dict_keys:
  "map_of (page_dict title content now) (str ''title'') = Some (PStr (py_strip title))"
  "map_of (page_dict title content now) (str ''content'') = Some (PStr (py_strip content))"
  "map_of (page_dict title content now) (str ''href'') = None"
  by (simp_all add: page_dict_def str_def)

lemma sendable_panel_record: "sendable (panel_record it)"
  by (simp add: sendable_def panel_record_keys)

lemma sendable_page_record: "page_record el = Some ann \<Longrightarrow> sendable ann"
  by (auto simp: page_record_def Let_def sendable_def page_dict_keys
      split: if_splits link_obs.splits)

lemma set_map_filter_iff: "y \<in> set (List.map_filter f xs) \<longleftrightarrow> (\<exists>x \<in> set xs. f x = Some y)"
  by (induction xs) (auto split: option.splits)

lemma sendable_search_page: "ann \<in> set (search_page_announcements page) \<Longrightarrow> sendable ann"
  by (auto simp: search_page_announcements_def set_map_filter_iff sendable_page_record)

lemma sendable_fetch_announcements:
  assumes "fetch_announcements e k = (current, evs, k')" and "ann \<in> set current"
  shows "sendable ann"
proof (cases "portal_seen e")
  case (PortalError msg)
  with assms show ?thesis
    by (simp add: fetch_announcements_def split: prod.splits)
next
  case (Portal panel page)
  with assms have "ann \<in> set (map panel_record panel) \<or> ann \<in> set (search_page_announcements page)"
    by (auto simp: fetch_announcements_def fetch_from_notifications_def Let_def split: if_splits)
  then show ?thesis
    using sendable_search_page sendable_panel_record by auto
qed

lemma sendable_str_title: "sendable ann \<Longrightarrow> str_title ann"
  by (auto simp: sendable_def str_title_def dict_get_def)

lemma send_all_sendable:
  "\<forall>ann \<in> set anns. sendable ann \<Longrightarrow> snd (snd (send_all e k anns)) = None"
proof (induction anns arbitrary: k)
  case Nil
  show ?case by simp
next
  case (Cons ann anns)
  from Cons.prems obtain t c where
    t: "map_of ann (str ''title'') = Some (PStr t)" and c: "map_of ann (str ''content'') = Some (PStr c)"
    by (auto simp: sendable_def)
  from Cons.prems have rest: "\<forall>a \<in> set anns. sendable a" by simp
  obtain ok evs k' where s: "send_telegram_notification e k (PStr t) (PStr c) = (ok, evs, k')"
    by (cases "send_telegram_notification e k (PStr t) (PStr c)") auto
  obtain evs' k'' err where r: "send_all e k' anns = (evs', k'', err)"
    by (cases "send_all e k' anns") auto
  from Cons.IH [OF rest, of k'] r have "err = None" by simp
  then show ?case
    by (simp add: t c s r)
qed


section \<open>What main does in a regular run\<close>

lemma str_titles_collected: "str_titles (collected e)"
proof -
  obtain current evs k' where f: "fetch_announcements e 0 = (current, evs, k')"
    by (cases "fetch_announcements e 0") auto
  have "\<forall>ann \<in> set current. str_title ann"
    using sendable_fetch_announcements [OF f] sendable_str_title by blast
  then show ?thesis
    by (simp add: collected_def f str_titles_def list_all_iff)
qed

lemma sendable_run_new: "\<forall>ann \<in> set (run_new e previous). sendable ann"
proof -
  obtain current evs k' where f: "fetch_announcements e 0 = (current, evs, k')"
    by (cases "fetch_announcements e 0") auto
  show ?thesis
    using sendable_fetch_announcements [OF f] by (auto simp: run_new_def collected_def f)
qed

lemma find_new_collected:
  "str_titles previous \<Longrightarrow> find_new_announcements (collected e) previous = Inr (run_new e previous)"
  using find_new_announcements_typed [OF _ str_titles_collected] by (simp add: run_new_def)

lemma main_regular:
  assumes "regular_run e st previous"
  shows "main e st =
           (if run_new e previous = [] then
              \<lparr>outcome = Returned True, store = st,
               events = StartDriver # fst (snd (fetch_announcements e 0)) @ [QuitDriver]\<rparr>
            else
              \<lparr>outcome = Returned True,
               store = save_announcements e st (previous @ run_new e previous),
               events = StartDriver # fst (snd (fetch_announcements e 0))
                          @ fst (send_all e (snd (snd (fetch_announcements e 0))) (run_new e previous))
                          @ [QuitDriver]\<rparr>)"
proof -
  from assms have v: "validate_configuration e" and d: "webdriver_error e = None"
    and p: "as_history (load_saved_announcements st) = Some previous" and t: "str_titles previous"
    by (simp_all add: regular_run_def)
  obtain current evs1 k1 where f: "fetch_announcements e 0 = (current, evs1, k1)"
    by (cases "fetch_announcements e 0") auto
  have cur: "collected e = current" by (simp add: collected_def f)
  have n: "find_new_announcements current previous = Inr (run_new e previous)"
    using find_new_collected [OF t, of e] by (simp add: cur)
  obtain evs2 k2 err where s: "send_all e k1 (run_new e previous) = (evs2, k2, err)"
    by (cases "send_all e k1 (run_new e previous)") auto
  have err: "err = None"
    using send_all_sendable [OF sendable_run_new, of e k1 e previous] by (simp add: s)
  have empty: "current = [] \<Longrightarrow> run_new e previous = []"
    by (simp add: run_new_def cur)
  show ?thesis
    using empty by (auto simp: main_def v d p f n s err)
qed


section \<open>The store: load after save\<close>

lemma load_save_completes:
  assumes "dict_keys_distinct h" and "file_write e (json_dumps h) = Completes"
  shows "as_history (load_saved_announcements (save_announcements e st h)) = Some h"
  using json_loads_dumps [OF assms(1)] assms(2)
  by (simp add: save_announcements_def load_saved_announcements_def as_history_history_json)

lemma dict_keys_distinct_append:
  "dict_keys_distinct (xs @ ys) \<longleftrightarrow> dict_keys_distinct xs \<and> dict_keys_distinct ys"
  by (simp add: dict_keys_distinct_def)

lemma distinct_keys_panel_record: "distinct (map fst (panel_record it))"
  by (simp add: panel_record_def str_def)

lemma distinct_keys_page_record: "page_record el = Some ann \<Longrightarrow> distinct (map fst ann)"
  by (auto simp: page_record_def Let_def page_dict_def str_def split: if_splits link_obs.splits)

lemma dict_keys_distinct_collected: "dict_keys_distinct (collected e)"
proof -
  have "distinct (map fst ann)" if "ann \<in> set (collected e)" for ann
  proof (cases "portal_seen e")
    case (PortalError msg)
    with that show ?thesis
      by (simp add: collected_def fetch_announcements_def split: prod.splits)
  next
    case (Portal panel page)
    with that have "ann \<in> set (map panel_record panel) \<or> ann \<in> set (search_page_announcements page)"
      by (auto simp: collected_def fetch_announcements_def fetch_from_notifications_def Let_def
          split: if_splits)
    then show ?thesis
      using distinct_keys_panel_record distinct_keys_page_record
      by (auto simp: search_page_announcements_def set_map_filter_iff)
  qed
  then show ?thesis by (simp add: dict_keys_distinct_def list_all_iff)
qed

lemma dict_keys_distinct_run_new: "dict_keys_distinct (run_new e previous)"
  using dict_keys_distinct_collected [of e]
  by (simp add: run_new_def dict_keys_distinct_def list_all_iff)

lemma regular_run_loaded:
  assumes "regular_run e st previous"
    and "run_new e previous = [] \<or> file_write e (json_dumps (previous @ run_new e previous)) = Completes"
  shows "as_history (load_saved_announcements (store (main e st))) = Some (previous @ run_new e previous)"
proof (cases "run_new e previous = []")
  case True
  with assms(1) show ?thesis
    by (simp add: main_regular [OF assms(1)] regular_run_def)
next
  case False
  with assms(2) have w: "file_write e (json_dumps (previous @ run_new e previous)) = Completes"
    by simp
  have k: "dict_keys_distinct (previous @ run_new e previous)"
    using regular_run_keys_distinct [OF assms(1)] dict_keys_distinct_run_new
    by (simp add: dict_keys_distinct_append)
  show ?thesis
    using False load_save_completes [OF k w] by (simp add: main_regular [OF assms(1)])
qed

text \<open>
  C2: \<open>save_announcements\<close> followed by \<open>load_saved_announcements\<close> gives back exactly
  \<open>previous @ newOnes\<close>, in that order, for dictionaries (each key once) whose dump is
  written to the end.
\<close>

theorem save_then_load_roundtrip:
  assumes "dict_keys_distinct (previous @ newOnes)"
    and "file_write e (json_dumps (previous @ newOnes)) = Completes"
  shows "as_history (load_saved_announcements (save_announcements e st (previous @ newOnes)))
           = Some (previous @ newOnes)"
  by (rule load_save_completes [OF assms])

theorem save_then_load_roundtrip_witness:
  "as_history (load_saved_announcements (save_announcements (ex_env []) Absent
       ([[(str ''href'', PStr (str ''a''))]] @ [[(str ''title'', PStr [10, 34, 92, 7]), (str ''href'', PNone)]])))
     = Some [[(str ''href'', PStr (str ''a''))], [(str ''title'', PStr [10, 34, 92, 7]), (str ''href'', PNone)]]"
proof -
  let ?p = "[[(str ''href'', PStr (str ''a''))]]"
  let ?n = "[[(str ''title'', PStr [10, 34, 92, 7]), (str ''href'', PNone)]]"
  have k: "dict_keys_distinct (?p @ ?n)"
    by (simp add: dict_keys_distinct_def str_def)
  have w: "file_write (ex_env []) (json_dumps (?p @ ?n)) = Completes"
    by (simp add: ex_env_def)
  show ?thesis
    using save_then_load_roundtrip [OF k w, of Absent] by simp
qed

section \<open>The example environments\<close>

lemma ex_env_valid: "validate_configuration (ex_env items)"
  by (simp add: validate_configuration_def required_vars_def TELEGRAM_TOKEN_def
      TELEGRAM_CHAT_ID_def SAKAI_USERNAME_def SAKAI_PASSWORD_def os_getenv_def ex_env_def
      py_strip_def py_isspace_def str_def)

lemma ex_env_regular: "regular_run (ex_env items) Absent []"
  using ex_env_valid [of items]
  by (simp add: regular_run_def load_saved_announcements_def as_history_def str_titles_def
      ex_env_def)

lemma ex_env_fetch: "fetch_announcements (ex_env items) k = (map panel_record items, [OpenPortal], k)"
  by (simp add: fetch_announcements_def fetch_from_notifications_def ex_env_def os_getenv_def
      flag_set_def ascii_lower_def str_def)

lemma ex_env_collected: "collected (ex_env items) = map panel_record items"
  by (simp add: collected_def ex_env_fetch)

lemma ex_env_run_new: "run_new (ex_env items) [] = map panel_record items"
  by (simp add: run_new_def ex_env_collected seen_hrefs_def)

section \<open>What depends on the store write and on the notifier's answers\<close>

lemma validate_file_write: "validate_configuration (e\<lparr>file_write := w\<rparr>) = validate_configuration e"
  by (simp add: validate_configuration_def required_vars_def TELEGRAM_TOKEN_def
      TELEGRAM_CHAT_ID_def SAKAI_USERNAME_def SAKAI_PASSWORD_def os_getenv_def)


lemma send_file_write:
  "send_telegram_notification (e\<lparr>file_write := w\<rparr>) k title content
     = send_telegram_notification e k title content"
  by (simp add: send_telegram_notification_def Let_def split: pyval.splits)

lemma os_getenv_file_write: "os_getenv (e\<lparr>file_write := w\<rparr>) name dflt = os_getenv e name dflt"
  by (simp add: os_getenv_def)

lemma fetch_file_write: "fetch_announcements (e\<lparr>file_write := w\<rparr>) k = fetch_announcements e k"
  by (cases "portal_seen e")
    (simp_all add: fetch_announcements_def send_file_write os_getenv_file_write Let_def)

lemma collected_file_write: "collected (e\<lparr>file_write := w\<rparr>) = collected e"
  by (simp add: collected_def fetch_file_write)


lemma run_new_file_write: "run_new (e\<lparr>file_write := w\<rparr>) previous = run_new e previous"
  by (simp add: run_new_def collected_file_write)


lemma regular_run_file_write: "regular_run (e\<lparr>file_write := w\<rparr>) st previous = regular_run e st previous"
  by (simp add: regular_run_def validate_file_write)



section \<open>Configuration\<close>

lemma blank_variable_invalid:
  assumes "name \<in> {str ''TELEGRAM_TOKEN'', str ''TELEGRAM_CHAT_ID'', str ''SAKAI_USERNAME'',
                     str ''SAKAI_PASSWORD''}"
    and "os_environ e name = None \<or> (\<exists>v. os_environ e name = Some v \<and> py_strip v = [])"
  shows "\<not> validate_configuration e"
proof -
  have e: "py_strip [] = []" by (simp add: py_strip_def)
  from assms(2) have "py_strip (os_getenv e name []) = []"
    by (auto simp: os_getenv_def e)
  with assms(1) show ?thesis
    by (auto simp: validate_configuration_def required_vars_def TELEGRAM_TOKEN_def
        TELEGRAM_CHAT_ID_def SAKAI_USERNAME_def SAKAI_PASSWORD_def)
qed

text \<open>
  C6: when one of the four required variables is missing, empty or blank, \<open>main\<close> returns
  \<open>False\<close> before anything else: no event (no browser, no portal, no notifier call, no
  sleep), the store untouched, and the process exits with status 1.
\<close>

theorem missing_configuration_aborts:
  assumes "name \<in> {str ''TELEGRAM_TOKEN'', str ''TELEGRAM_CHAT_ID'', str ''SAKAI_USERNAME'',
                     str ''SAKAI_PASSWORD''}"
    and "os_environ e name = None \<or> (\<exists>v. os_environ e name = Some v \<and> py_strip v = [])"
  shows "main e st = \<lparr>outcome = Returned False, store = st, events = []\<rparr>
         \<and> exit_status (outcome (main e st)) = Some 1"
  using blank_variable_invalid [OF assms] by (simp add: main_def exit_status_def)

theorem missing_configuration_aborts_witness:
  "main ((ex_env [ex_item (str ''A'') PNone])
           \<lparr>os_environ := (\<lambda>name. if name = str ''SAKAI_PASSWORD'' then None else Some (str ''x''))\<rparr>)
        (Content (str ''[]''))
     = \<lparr>outcome = Returned False, store = Content (str ''[]''), events = []\<rparr>"
proof -
  let ?e = "(ex_env [ex_item (str ''A'') PNone])
              \<lparr>os_environ := (\<lambda>name. if name = str ''SAKAI_PASSWORD'' then None else Some (str ''x''))\<rparr>"
  have n: "str ''SAKAI_PASSWORD'' \<in> {str ''TELEGRAM_TOKEN'', str ''TELEGRAM_CHAT_ID'',
             str ''SAKAI_USERNAME'', str ''SAKAI_PASSWORD''}"
    by simp
  have m: "os_environ ?e (str ''SAKAI_PASSWORD'') = None
             \<or> (\<exists>v. os_environ ?e (str ''SAKAI_PASSWORD'') = Some v \<and> py_strip v = [])"
    by simp
  from missing_configuration_aborts [OF n m, of "Content (str ''[]'')"]
  show ?thesis by (rule conjunct1)
qed

section \<open>A failing store write\<close>

lemma byte_prefix_zero: "byte_prefix 0 s = Some []"
  by (cases s) simp_all

lemma byte_prefix_take: "byte_prefix n s = Some written \<Longrightarrow> \<exists>m. written = take m s"
proof (induction s arbitrary: n written)
  case Nil
  then show ?case by simp
next
  case (Cons c s)
  show ?case
  proof (cases "n = 0")
    case True
    with Cons.prems have "written = take 0 (c # s)" by simp
    then show ?thesis ..
  next
    case False
    with Cons.prems obtain rest where r: "byte_prefix (n - utf8_length c) s = Some rest"
      and w: "written = c # rest"
      by (auto split: if_splits)
    from Cons.IH [OF r] obtain m where "rest = take m s" ..
    with w have "written = take (Suc m) (c # s)" by simp
    then show ?thesis ..
  qed
qed

text \<open>
  C7: in a regular run that has new records, a store write that does not complete is
  swallowed by \<open>save_announcements\<close>: \<open>main\<close> still returns \<open>True\<close> and the process exits
  with status 0. The store is then the old one (the file could not be opened), or holds
  the bytes that reached the file: a beginning of the text, or bytes that end inside a
  character and cannot be read back.
\<close>

theorem write_failure_exit_status:
  assumes "regular_run e st previous" and "run_new e previous \<noteq> []"
    and "file_write e (json_dumps (previous @ run_new e previous)) \<noteq> Completes"
  shows "outcome (main e st) = Returned True
         \<and> exit_status (outcome (main e st)) = Some 0
         \<and> (store (main e st) = st \<or> store (main e st) = Unreadable
              \<or> (\<exists>n. store (main e st) = Content (take n (json_dumps (previous @ run_new e previous)))))"
proof -
  have s: "store (main e st) = save_announcements e st (previous @ run_new e previous)"
    and o: "outcome (main e st) = Returned True"
    using assms(2) by (simp_all add: main_regular [OF assms(1)])
  have "save_announcements e st (previous @ run_new e previous) = st
          \<or> save_announcements e st (previous @ run_new e previous) = Unreadable
          \<or> (\<exists>n. save_announcements e st (previous @ run_new e previous)
                    = Content (take n (json_dumps (previous @ run_new e previous))))"
    using assms(3)
    by (cases "file_write e (json_dumps (previous @ run_new e previous))")
      (auto simp: save_announcements_def dest: byte_prefix_take split: option.splits)
  then show ?thesis
    by (simp add: s o exit_status_def)
qed

theorem write_failure_exit_status_witness:
  "exit_status (outcome (main ((ex_env [ex_item (str ''A'') PNone])\<lparr>file_write := (\<lambda>t. Breaks 3)\<rparr>) Absent))
     = Some 0"
proof -
  let ?e = "(ex_env [ex_item (str ''A'') PNone])\<lparr>file_write := (\<lambda>t. Breaks 3)\<rparr>"
  have r: "regular_run ?e Absent []"
    using ex_env_regular by (simp only: regular_run_file_write)
  have n: "run_new ?e [] \<noteq> []"
    by (simp add: run_new_file_write ex_env_run_new)
  have w: "file_write ?e (json_dumps ([] @ run_new ?e [])) \<noteq> Completes"
    by simp
  from write_failure_exit_status [OF r n w]
  show ?thesis by (elim conjE)
qed


section \<open>Records without a usable href, and duplicates\<close>

lemma filter_not_seen:
  assumes "\<And>ann. P ann \<Longrightarrow> href_of ann \<notin> seen_hrefs previous"
  shows "[ann \<leftarrow> [ann \<leftarrow> current. href_of ann \<notin> seen_hrefs previous]. P ann] = [ann \<leftarrow> current. P ann]"
  using assms by (induction current) auto



text \<open>
  C10: \<open>find_new_announcements\<close> does not deduplicate within \<open>current\<close>. For an \<open>href\<close> that is
  not among the non-empty \<open>href\<close> strings of \<open>previous\<close>, every record of \<open>current\<close> with that
  \<open>href\<close> is in the result, as often as it occurs; in a regular run whose store write
  completes they are all appended, so that the history loaded afterwards is
  \<open>previous\<close> followed by all of them.
\<close>

theorem duplicates_in_current_all_stored:
  assumes "regular_run e st previous"
    and "h \<notin> seen_hrefs previous"
    and "run_new e previous = [] \<or> file_write e (json_dumps (previous @ run_new e previous)) = Completes"
  shows "(\<forall>current. str_titles current \<longrightarrow>
            (\<exists>new. find_new_announcements current previous = Inr new
               \<and> [ann \<leftarrow> new. href_of ann = h] = [ann \<leftarrow> current. href_of ann = h]))
         \<and> find_new_announcements (collected e) previous = Inr (run_new e previous)
         \<and> [ann \<leftarrow> run_new e previous. href_of ann = h] = [ann \<leftarrow> collected e. href_of ann = h]
         \<and> as_history (load_saved_announcements (store (main e st)))
             = Some (previous @ run_new e previous)"
proof -
  from assms(1) have t: "str_titles previous" by (simp add: regular_run_def)
  have f: "[ann \<leftarrow> [ann \<leftarrow> current. href_of ann \<notin> seen_hrefs previous]. href_of ann = h]
             = [ann \<leftarrow> current. href_of ann = h]" for current
    by (rule filter_not_seen) (use assms(2) in auto)
  have g: "\<forall>current. str_titles current \<longrightarrow>
            (\<exists>new. find_new_announcements current previous = Inr new
               \<and> [ann \<leftarrow> new. href_of ann = h] = [ann \<leftarrow> current. href_of ann = h])"
    using find_new_announcements_typed [OF t] f by simp
  have r: "[ann \<leftarrow> run_new e previous. href_of ann = h] = [ann \<leftarrow> collected e. href_of ann = h]"
    unfolding run_new_def by (rule f)
  show ?thesis
    using g r find_new_collected [OF t, of e] regular_run_loaded [OF assms(1,3)] by simp
qed

theorem duplicates_in_current_all_stored_witness:
  "as_history (load_saved_announcements
      (store (main (ex_env [ex_item (str ''A'') (PStr (str ''h'')), ex_item (str ''B'') (PStr (str ''h''))])
                Absent)))
     = Some [panel_record (ex_item (str ''A'') (PStr (str ''h''))),
             panel_record (ex_item (str ''B'') (PStr (str ''h'')))]"
proof -
  let ?e = "ex_env [ex_item (str ''A'') (PStr (str ''h'')), ex_item (str ''B'') (PStr (str ''h''))]"
  have h: "PStr (str ''h'') \<notin> seen_hrefs []" by (simp add: seen_hrefs_def)
  have w: "run_new ?e [] = [] \<or> file_write ?e (json_dumps ([] @ run_new ?e [])) = Completes"
    by (simp add: ex_env_def)
  from duplicates_in_current_all_stored [OF ex_env_regular h w]
  have "as_history (load_saved_announcements (store (main ?e Absent))) = Some ([] @ run_new ?e [])"
    by (elim conjE)
  then show ?thesis
    by (simp add: ex_env_run_new)
qed


section \<open>The store after a run\<close>

lemma old_record_typed: "str_titles [old_record]" "dict_keys_distinct [old_record]"
  by (simp_all add: str_titles_def str_title_def dict_get_def dict_keys_distinct_def
      old_record_def str_def)

lemma load_dumped: "dict_keys_distinct h \<Longrightarrow> as_history (load_saved_announcements (Content (json_dumps h))) = Some h"
  by (simp add: load_saved_announcements_def json_loads_dumps as_history_history_json)

lemma regular_run_dumped:
  assumes "regular_run e Absent []" and "dict_keys_distinct h" and "str_titles h"
  shows "regular_run e (Content (json_dumps h)) h"
  using assms by (simp add: regular_run_def load_dumped)

lemma ex_env_run_new_old:
  "run_new (ex_env [ex_item (str ''A'') (PStr (str ''n''))]) [old_record]
     = [panel_record (ex_item (str ''A'') (PStr (str ''n'')))]"
  by (simp add: run_new_def ex_env_collected seen_hrefs_def
      panel_record_def ex_item_def old_record_def dict_get_def truthy_def str_def)

text \<open>
  C3 (as stated): the write is atomic and after every run the persisted history is a
  superset, by \<open>href\<close>, of the loaded one. With a write that breaks after the file was
  truncated, the store holds neither the old nor the new text: the stored record with
  \<open>href\<close> \<open>o\<close> is lost and the next load gives the empty history.
\<close>

theorem torn_write_counterexample:
  "as_history (load_saved_announcements (Content (json_dumps [old_record]))) = Some [old_record]
   \<and> store (main torn_env (Content (json_dumps [old_record]))) = Content []
   \<and> as_history (load_saved_announcements (store (main torn_env (Content (json_dumps [old_record])))))
       = Some []
   \<and> \<not> seen_hrefs [old_record] \<subseteq> seen_hrefs []"
proof -
  let ?st = "Content (json_dumps [old_record])"
  have l: "as_history (load_saved_announcements ?st) = Some [old_record]"
    by (rule load_dumped) (rule old_record_typed)
  have "regular_run (ex_env [ex_item (str ''A'') (PStr (str ''n''))]) ?st [old_record]"
    by (rule regular_run_dumped [OF ex_env_regular old_record_typed(2,1)])
  then have r: "regular_run torn_env ?st [old_record]"
    by (simp only: torn_env_def regular_run_file_write)
  have n: "run_new torn_env [old_record] = [panel_record (ex_item (str ''A'') (PStr (str ''n'')))]"
    by (simp only: torn_env_def run_new_file_write ex_env_run_new_old)
  have s: "store (main torn_env ?st) = Content []"
    by (simp add: main_regular [OF r] n save_announcements_def)
      (simp add: torn_env_def byte_prefix_zero)
  have "scan_once (2 * length ([] :: pystr) + 2) (skip_ws []) = scan_once (Suc (Suc 0)) []"
    by (simp add: skip_ws_def)
  then have "json_loads [] = None"
    unfolding json_loads_def by simp
  then have e: "as_history (load_saved_announcements (Content [])) = Some []"
    by (simp add: load_saved_announcements_def as_history_def)
  have h: "\<not> seen_hrefs [old_record] \<subseteq> seen_hrefs []"
    by (simp add: seen_hrefs_def old_record_def dict_get_def truthy_def str_def)
  show ?thesis
    using l s e h by simp
qed

text \<open>
  C3 (amended): in a regular run whose write completes, \<open>save_announcements\<close> leaves in the
  store exactly the dump of \<open>previous @ newOnes\<close>, in place of what the file held; a run
  with nothing new leaves the store as it was. In both cases the history loaded after
  the run is \<open>previous @ newOnes\<close>: it starts with \<open>previous\<close> and holds every \<open>href\<close> of it.
\<close>

theorem store_grows_when_written:
  assumes "regular_run e st previous"
    and "run_new e previous = [] \<or> file_write e (json_dumps (previous @ run_new e previous)) = Completes"
  shows "store (main e st)
           = (if run_new e previous = [] then st
              else Content (json_dumps (previous @ run_new e previous)))
         \<and> as_history (load_saved_announcements (store (main e st)))
             = Some (previous @ run_new e previous)
         \<and> take (length previous) (previous @ run_new e previous) = previous
         \<and> seen_hrefs previous \<subseteq> seen_hrefs (previous @ run_new e previous)"
proof -
  have s: "store (main e st)
             = (if run_new e previous = [] then st
                else Content (json_dumps (previous @ run_new e previous)))"
    using assms(2) by (auto simp: main_regular [OF assms(1)] save_announcements_def)
  have h: "seen_hrefs previous \<subseteq> seen_hrefs (previous @ run_new e previous)"
    by (auto simp: seen_hrefs_def)
  show ?thesis
    using s h regular_run_loaded [OF assms] by simp
qed

theorem store_grows_when_written_witness:
  "store (main (ex_env [ex_item (str ''A'') (PStr (str ''n''))]) (Content (json_dumps [old_record])))
     = Content (json_dumps [old_record, panel_record (ex_item (str ''A'') (PStr (str ''n'')))])"
proof -
  let ?e = "ex_env [ex_item (str ''A'') (PStr (str ''n''))]"
  let ?st = "Content (json_dumps [old_record])"
  have r: "regular_run ?e ?st [old_record]"
    by (rule regular_run_dumped [OF ex_env_regular old_record_typed(2,1)])
  have n: "run_new ?e [old_record] = [panel_record (ex_item (str ''A'') (PStr (str ''n'')))]"
    by (rule ex_env_run_new_old)
  have w: "run_new ?e [old_record] = []
             \<or> file_write ?e (json_dumps ([old_record] @ run_new ?e [old_record])) = Completes"
    by (simp add: ex_env_def)
  from store_grows_when_written [OF r w]
  have "store (main ?e ?st)
          = (if run_new ?e [old_record] = [] then ?st
             else Content (json_dumps ([old_record] @ run_new ?e [old_record])))"
    by (elim conjE)
  then show ?thesis
    by (simp add: n)
qed


section \<open>Notifications that fail\<close>








section \<open>Escaping before the notifier\<close>

lemma replace_char_removes: "c \<notin> set r \<Longrightarrow> c \<notin> set (replace_char c r s)"
  by (induction s) (auto simp: replace_char_def)

lemma replace_char_keeps_out: "x \<notin> set s \<Longrightarrow> x \<notin> set r \<Longrightarrow> x \<notin> set (replace_char c r s)"
  by (induction s) (auto simp: replace_char_def)

lemma html_escape_no_angle: "60 \<notin> set (html_escape s)" "62 \<notin> set (html_escape s)"
proof -
  have "60 \<notin> set (replace_char 60 (str ''&lt;'') (replace_char 38 (str ''&amp;'') s))"
    by (rule replace_char_removes) (simp add: str_def)
  then show "60 \<notin> set (html_escape s)"
    unfolding html_escape_def by (rule replace_char_keeps_out) (simp add: str_def)
  show "62 \<notin> set (html_escape s)"
    unfolding html_escape_def by (rule replace_char_removes) (simp add: str_def)
qed

lemma panel_record_escaped:
  assumes "ann \<in> set (fetch_from_notifications items)"
  shows "\<exists>t c. map_of ann (str ''title'') = Some (PStr t) \<and> map_of ann (str ''content'') = Some (PStr c)
           \<and> 60 \<notin> set t \<and> 62 \<notin> set t \<and> 60 \<notin> set c \<and> 62 \<notin> set c"
proof -
  from assms obtain it where a: "ann = panel_record it"
    by (auto simp: fetch_from_notifications_def)
  have "60 \<notin> set (take 2000 (html_escape (final_message it)))"
    and "62 \<notin> set (take 2000 (html_escape (final_message it)))"
    using html_escape_no_angle [of "final_message it"] by (auto dest: in_set_takeD)
  then show ?thesis
    using html_escape_no_angle [of "take 100 (actual_title it)"]
    by (simp add: a panel_record_keys)
qed

text \<open>
  C8: the records of the page search are not escaped. With \<open>ALLOW_PAGE_SEARCH=1\<close>, an empty
  panel and a page element whose text is \<open>Duyuru <b> & x\<close> and, on the next line,
  \<open>body <i>\<close>, \<open>main\<close> calls \<open>send_telegram_notification\<close> with the raw title and the raw
  content; the notifier itself escapes \<open><\<close> and \<open>>\<close>, never \<open>&\<close>.
\<close>

theorem page_search_sends_unescaped:
  "events (main page_env Absent)
     = [StartDriver, OpenPortal,
        Notify (PStr (str ''Duyuru <b> & x'')) (PStr (str ''body <i>'')),
        Post (telegram_message (str ''Duyuru &lt;b&gt; & x'') (str ''body &lt;i&gt;'')),
        Sleep, QuitDriver]"
proof -
  have v: "validate_configuration page_env"
    by (simp add: validate_configuration_def required_vars_def TELEGRAM_TOKEN_def
        TELEGRAM_CHAT_ID_def SAKAI_USERNAME_def SAKAI_PASSWORD_def os_getenv_def page_env_def
        py_strip_def py_isspace_def str_def)
  have r: "regular_run page_env Absent []"
    using v
    by (simp add: regular_run_def load_saved_announcements_def as_history_def str_titles_def
        page_env_def)
  have f: "fetch_announcements page_env 0
             = ([page_dict (str ''Duyuru <b> & x'') (str ''body <i>'') (str ''t'')], [OpenPortal], 0)"
    by (simp add: fetch_announcements_def fetch_from_notifications_def page_env_def os_getenv_def
        flag_set_def ascii_lower_def search_page_announcements_def MAX_ANNOUNCEMENTS_def
        page_record_def Let_def py_strip_def py_isspace_def str_def)
  have n: "run_new page_env [] = [page_dict (str ''Duyuru <b> & x'') (str ''body <i>'') (str ''t'')]"
    by (simp add: run_new_def collected_def f seen_hrefs_def)
  have s: "fst (send_all page_env 0 [page_dict (str ''Duyuru <b> & x'') (str ''body <i>'') (str ''t'')])
             = [Notify (PStr (str ''Duyuru <b> & x'')) (PStr (str ''body <i>'')),
                Post (telegram_message (str ''Duyuru &lt;b&gt; & x'') (str ''body &lt;i&gt;'')),
                Sleep]"
    by (simp add: page_dict_def send_telegram_notification_def replace_char_def py_strip_def
        py_isspace_def str_def)
  show ?thesis
    by (simp add: main_regular [OF r] n f s del: send_all.simps)
qed


section \<open>A store that is missing, unreadable or of another shape\<close>








end
